theory Spec2Isabelle
  imports Main "HOL-Library.Sublist"
begin

section \<open>Command results (process/process.go)\<close>

text \<open>
  Go strings and byte slices are byte sequences. A Go \<open>error\<close> value is one of the
  errors the code tests for, or some other error. \<open>ExitError st\<close> is an
  \<open>*exec.ExitError\<close>; \<open>st\<close> is \<open>Some n\<close> when its \<open>Sys()\<close> is a
  \<open>syscall.WaitStatus\<close> whose \<open>ExitStatus()\<close> is \<open>n\<close> (an \<open>int\<close>), and
  \<open>None\<close> when it is not a wait status.
\<close>

type_synonym bytes = string

datatype err =
    ExitError "int option"
  | EOF
  | ErrBufferFull
  | ErrNegativeCount
  | ErrClosed
  | ErrNotExist
  | OtherError string

text \<open>How a function leaves the normal control flow.\<close>

datatype abort =
    Panic
  | Fail string
  | Exit int

text \<open>
  The file system as far as the code touches it: the temp files that exist on disk, the
  file handles that are open, and the number of temp files created so far (a temp file is
  identified by its creation number, which stands for its unique name).
\<close>

record filesys =
  disk :: "nat set"
  handles :: "nat set"
  created :: nat

text \<open>
  \<open>type Command struct { *bufio.Reader; tmp *os.File; Err error; CmdStr string;
  Duration time.Duration }\<close>. The embedded reader is \<open>None\<close> when the pointer is nil and
  otherwise holds the bytes it serves. \<open>finalizer\<close> records whether \<open>newCommand\<close>
  registered \<open>cleanup\<close> as the object's finalizer.
\<close>

record command =
  Reader :: "bytes option"
  tmp :: "nat option"
  Err :: "err option"
  CmdStr :: string
  Duration :: int
  finalizer :: bool

definition UnknownExit :: int where
  "UnknownExit = 1"

definition ExitCode :: "command \<Rightarrow> int" where
  "ExitCode c =
     (case Err c of
        None \<Rightarrow> 0
      | Some e \<Rightarrow>
          (case e of
             ExitError (Some st) \<Rightarrow> st
           | _ \<Rightarrow> UnknownExit))"

text \<open>\<open>(*os.File).Close\<close> and \<open>os.Remove\<close>, with the errors the callers ignore.\<close>

definition file_Close :: "nat \<Rightarrow> filesys \<Rightarrow> err option \<times> filesys" where
  "file_Close f fs =
     (if f \<in> handles fs then (None, fs\<lparr>handles := handles fs - {f}\<rparr>)
      else (Some ErrClosed, fs))"

definition os_Remove :: "nat \<Rightarrow> filesys \<Rightarrow> err option \<times> filesys" where
  "os_Remove f fs =
     (if f \<in> disk fs then (None, fs\<lparr>disk := disk fs - {f}\<rparr>)
      else (Some ErrNotExist, fs))"

definition Close :: "command \<Rightarrow> filesys \<Rightarrow> err option \<times> filesys" where
  "Close c fs = (case tmp c of None \<Rightarrow> (None, fs) | Some f \<Rightarrow> file_Close f fs)"

text \<open>
  \<open>cleanup\<close> dereferences \<open>c.tmp\<close> without a check: \<open>c.tmp.Name()\<close> on a nil file
  panics.
\<close>

definition cleanup :: "command \<Rightarrow> filesys \<Rightarrow> abort + filesys" where
  "cleanup c fs =
     (case tmp c of
        None \<Rightarrow> Inl Panic
      | Some f \<Rightarrow> Inr (snd (os_Remove f (snd (file_Close f fs)))))"

definition Cleanup :: "command \<Rightarrow> filesys \<Rightarrow> abort + filesys" where
  "Cleanup c fs =
     (case tmp c of
        None \<Rightarrow> Inr fs
      | Some f \<Rightarrow> cleanup c (snd (Close c fs)))"

definition newCommand :: "bytes option \<Rightarrow> nat option \<Rightarrow> string \<Rightarrow> err option \<Rightarrow> command" where
  "newCommand rdr t cmd e =
     \<lparr>Reader = rdr, tmp = t, Err = e, CmdStr = cmd, Duration = 0, finalizer = (t \<noteq> None)\<rparr>"

section \<open>Configuration and the output drain (main.go)\<close>

record params =
  Procs :: int
  Nlines :: int
  Retry :: int
  Ordered :: bool
  Sep :: string
  Verbose :: bool
  StopOnError :: bool
  DryRun :: bool
  Log :: string
  Command :: string

text \<open>The regular expression \<open>\s+\<close>: a backslash, \<open>s\<close>, \<open>+\<close>.\<close>

definition whitespace_re :: string where
  "whitespace_re = [CHR 0x5C, CHR ''s'', CHR ''+'']"

text \<open>
  The checks \<open>main\<close> makes on the parsed arguments before anything runs:
  \<open>p.Fail\<close> prints the message with the usage and exits.
\<close>

definition main_config :: "params \<Rightarrow> abort + params" where
  "main_config args =
     (if Sep args \<noteq> [] \<and> Nlines args > 1
      then Inl (Fail ''must specify either sep (-s) or n-lines (-n), not both'')
      else if Nlines args = 1 \<and> Sep args = []
      then Inr (args\<lparr>Sep := whitespace_re\<rparr>)
      else Inr args)"

text \<open>\<open>arg.MustParse\<close> starts from \<open>Params{Procs: 1, Nlines: 1}\<close>.\<close>

definition default_params :: "string \<Rightarrow> params" where
  "default_params cmd =
     \<lparr>Procs = 1, Nlines = 1, Retry = 0, Ordered = False, Sep = [], Verbose = False,
      StopOnError = False, DryRun = False, Log = [], Command = cmd\<rparr>"

definition max_int :: "int \<Rightarrow> int \<Rightarrow> int" where
  "max_int a b = (if a > b then a else b)"

text \<open>
  The state of the output drain: the global \<open>ExitCode\<close>, the failure count, the bytes
  written to the process's stdout, and the file system. The diagnostic stream, the
  command log and the timed flushes write nothing to stdout and are left out.
\<close>

record drain =
  main_ExitCode :: int
  fails :: int
  out :: bytes
  dfs :: filesys

text \<open>
  The loop \<open>for p := range process.Runner(...)\<close> of \<open>run\<close>, over the results the channel
  delivers. \<open>io.Copy(stdout, p)\<close> calls the embedded reader, which panics when it is nil.
\<close>

fun run_loop :: "params \<Rightarrow> command list \<Rightarrow> drain \<Rightarrow> abort + drain" where
  "run_loop args [] d = Inr d"
| "run_loop args (p # ps) d =
     (let ex = ExitCode p;
          d1 = (if ex \<noteq> 0
                then d\<lparr>main_ExitCode := max_int (main_ExitCode d) ex, fails := fails d + 1\<rparr>
                else d)
      in if ex \<noteq> 0 \<and> StopOnError args then Inr d1
         else (case Reader p of
                 None \<Rightarrow> Inl Panic
               | Some bs \<Rightarrow>
                   (case Cleanup p (dfs d1) of
                      Inl a \<Rightarrow> Inl a
                    | Inr fs' \<Rightarrow> run_loop args ps (d1\<lparr>out := out d1 @ bs, dfs := fs'\<rparr>))))"

definition run :: "params \<Rightarrow> command list \<Rightarrow> filesys \<Rightarrow> abort + drain" where
  "run args ps fs = run_loop args ps \<lparr>main_ExitCode = 0, fails = 0, out = [], dfs = fs\<rparr>"

text \<open>
  \<open>main\<close>, given whether stdin carries input and the results the runner delivers:
  the status the process exits with. A panic ends a Go program with status 2.
\<close>

definition main :: "params \<Rightarrow> bool \<Rightarrow> command list \<Rightarrow> filesys \<Rightarrow> abort" where
  "main args isStdin ps fs =
     (case main_config args of
        Inl a \<Rightarrow> a
      | Inr args' \<Rightarrow>
          if \<not> isStdin then Exit 255
          else (case run args' ps fs of
                  Inl a \<Rightarrow> a
                | Inr d \<Rightarrow> Exit (main_ExitCode d)))"

text \<open>
  The exit codes the drain observes: those of the results it takes from the channel, up to
  and including the one at which \<open>--stop-on-error\<close> leaves the loop.
\<close>

fun observed :: "params \<Rightarrow> command list \<Rightarrow> int list" where
  "observed args [] = []"
| "observed args (p # ps) =
     ExitCode p # (if ExitCode p \<noteq> 0 \<and> StopOnError args then [] else observed args ps)"

section \<open>The command generator (main.go: genCommands)\<close>












section \<open>Running one command (process/process.go)\<close>

definition BufferSize :: int where
  "BufferSize = 1048576"

text \<open>
  \<open>type CallBack func(io.Reader, io.WriteCloser) error\<close>: the callback reads the child's
  stdout, writes what the runner is to capture, closes the writer and returns its error.
\<close>

type_synonym callback = "bytes \<Rightarrow> bytes \<times> err option"

text \<open>
  \<open>type Options struct { CallBack; Ordered; Retries; Remotes }\<close>. Remote execution
  is outside the model: \<open>Remotes\<close> is empty, \<open>getHost\<close> returns nil and every command
  runs through the local shell.
\<close>

record options =
  CallBack :: "callback option"
  Ordered' :: bool
  Retries :: int

text \<open>
  What the outside world does during one call of \<open>oneRun\<close>: the errors of
  \<open>cmd.StdoutPipe()\<close> and \<open>cmd.Start()\<close>, the bytes the child writes to its stdout,
  the error that ends the pipe's stream (\<open>None\<close> for a regular end of input), the errors
  of \<open>ioutil.TempFile\<close>, of writing the temp file and of \<open>tmp.Seek\<close>, the error of
  \<open>cmd.Wait()\<close>, and the wall-clock time the child takes.
\<close>

record child =
  pipe_err :: "err option"
  start_err :: "err option"
  stdout :: bytes
  read_err :: "err option"
  tmpfile_err :: "err option"
  write_err :: "err option"
  seek_err :: "err option"
  wait_err :: "err option"
  elapsed :: int

text \<open>
  The world a command runs in: the clock \<open>time.Now()\<close> reads, the behaviour of each child
  in the order the calls of \<open>oneRun\<close> are made, the number of calls made so far, the command
  strings of the children started so far, and the file system.
\<close>

record world =
  clock :: int
  children :: "nat \<Rightarrow> child"
  attempts :: nat
  started :: "string list"
  wfs :: filesys

text \<open>
  \<open>bufio.NewReaderSize\<close> and \<open>(*bufio.Reader).Peek\<close>, over a stream given by its bytes
  and the error that ends it. A reader's buffer has at least 16 bytes. \<open>Peek n\<close> returns the
  next \<open>n\<close> bytes and no error when the stream has them; fewer bytes come with the error
  that explains why: \<open>ErrBufferFull\<close> when \<open>n\<close> exceeds the buffer, else the stream's.
\<close>

definition NewReaderSize :: "bytes \<times> err option \<Rightarrow> int \<Rightarrow> (bytes \<times> err option) \<times> nat" where
  "NewReaderSize rd sz = (rd, nat (if sz < 16 then 16 else sz))"

definition Peek :: "(bytes \<times> err option) \<times> nat \<Rightarrow> int \<Rightarrow> bytes \<times> err option" where
  "Peek b n =
     (let data = fst (fst b); sz = snd b
      in if n < 0 then ([], Some ErrNegativeCount)
         else if nat n > sz then (take sz data, Some ErrBufferFull)
         else if length data < nat n
         then (data, Some (case snd (fst b) of None \<Rightarrow> EOF | Some e \<Rightarrow> e))
         else (take (nat n) data, None))"

text \<open>\<open>ioutil.TempFile\<close>: a new, open file, or the error and a nil file.\<close>

definition TempFile :: "err option \<Rightarrow> filesys \<Rightarrow> (nat option \<times> err option) \<times> filesys" where
  "TempFile failure fs =
     (case failure of
        Some e \<Rightarrow> ((None, Some e), fs)
      | None \<Rightarrow>
          ((Some (created fs), None),
           fs\<lparr>disk := insert (created fs) (disk fs),
              handles := insert (created fs) (handles fs),
              created := created fs + 1\<rparr>))"

text \<open>
  The error after \<open>cmd.Wait()\<close>: \<open>if err == nil && callback != nil\<close>, the callback's
  error, when it sent one, replaces it.
\<close>

definition callback_err :: "err option \<Rightarrow> callback option \<Rightarrow> err option \<Rightarrow> err option" where
  "callback_err e callback cberr =
     (if e = None \<and> callback \<noteq> None
      then (case cberr of Some e' \<Rightarrow> Some e' | None \<Rightarrow> e)
      else e)"

text \<open>
  \<open>oneRun\<close> with \<open>BufferSize\<close> as its first argument (a package variable in the source).
  With a callback, the runner reads the callback's output from an \<open>io.Pipe\<close>, which ends
  regularly when the callback closes its writer.
\<close>

definition oneRun :: "int \<Rightarrow> string \<Rightarrow> callback option \<Rightarrow> string list \<Rightarrow> world \<Rightarrow> command \<times> world" where
  "oneRun B command callback env w =
     (let ch = children w (attempts w);
          w0 = w\<lparr>attempts := attempts w + 1\<rparr>
      in case pipe_err ch of
           Some e \<Rightarrow> (newCommand None None command (Some e), w0)
         | None \<Rightarrow>
         (case start_err ch of
            Some e \<Rightarrow> (newCommand None None command (Some e), w0)
          | None \<Rightarrow>
            (let w1 = w0\<lparr>started := started w0 @ [command], clock := clock w0 + elapsed ch\<rparr>;
                 (obytes, cberr) =
                    (case callback of None \<Rightarrow> (stdout ch, None) | Some f \<Rightarrow> f (stdout ch));
                 rerr = (case callback of None \<Rightarrow> read_err ch | Some f \<Rightarrow> None);
                 bpipe = NewReaderSize (obytes, rerr) B;
                 (res, err) = Peek bpipe B
             in if err = Some ErrBufferFull \<or> err = Some EOF
                then (newCommand (Some res) None command
                        (callback_err (wait_err ch) callback cberr), w1)
                else if err \<noteq> None
                then (newCommand None None command err, w1)
                else
                  (case TempFile (tmpfile_err ch) (wfs w1) of
                     ((t, terr), fs1) \<Rightarrow>
                       (let w2 = w1\<lparr>wfs := fs1\<rparr>;
                            cerr = (case rerr of Some e \<Rightarrow> Some e | None \<Rightarrow> write_err ch)
                        in if terr \<noteq> None
                           then (newCommand (Some res) t command terr, w2)
                           else if cerr \<noteq> None
                           then (newCommand (Some res) t command cerr, w2)
                           else
                             (let err1 = seek_err ch;
                                  err2 = (if err1 = None then wait_err ch else err1)
                              in (newCommand (Some obytes) t command
                                    (callback_err err2 callback cberr), w2)))))))"

text \<open>The loop \<open>for retries > 0 && c.ExitCode() != 0\<close> of \<open>Run\<close>.\<close>

function retry_loop ::
  "int \<Rightarrow> string \<Rightarrow> callback option \<Rightarrow> string list \<Rightarrow> int \<Rightarrow> command \<times> world \<Rightarrow> command \<times> world" where
  "retry_loop B command callback env retries cw =
     (if retries > 0 \<and> ExitCode (fst cw) \<noteq> 0
      then retry_loop B command callback env (retries - 1) (oneRun B command callback env (snd cw))
      else cw)"
  by pat_completeness auto
termination
  by (relation "measure (\<lambda>(B, command, callback, env, retries, cw). nat retries)") auto

declare retry_loop.simps [simp del]

definition Run :: "int \<Rightarrow> string \<Rightarrow> options option \<Rightarrow> string list \<Rightarrow> world \<Rightarrow> command \<times> world" where
  "Run B command opts env w =
     (let t = clock w;
          callback = (case opts of None \<Rightarrow> None | Some opt \<Rightarrow> CallBack opt);
          cw = oneRun B command callback env w;
          retries = (case opts of None \<Rightarrow> 0 | Some opt \<Rightarrow> Retries opt);
          cw' = retry_loop B command callback env retries cw
      in ((fst cw')\<lparr>Duration := clock (snd cw') - t\<rparr>, snd cw'))"

text \<open>
  The result and the world after \<open>k + 1\<close> successive calls of \<open>oneRun\<close> on one command
  string.
\<close>

fun nth_attempt ::
  "int \<Rightarrow> string \<Rightarrow> callback option \<Rightarrow> string list \<Rightarrow> world \<Rightarrow> nat \<Rightarrow> command \<times> world" where
  "nth_attempt B command callback env w 0 = oneRun B command callback env w"
| "nth_attempt B command callback env w (Suc k) =
     oneRun B command callback env (snd (nth_attempt B command callback env w k))"

text \<open>The bytes \<open>oneRun\<close> reads: the child's stdout, or with a callback what it writes.\<close>

definition captured :: "callback option \<Rightarrow> child \<Rightarrow> bytes" where
  "captured callback ch =
     (case callback of None \<Rightarrow> stdout ch | Some f \<Rightarrow> fst (f (stdout ch)))"

subsection \<open>Example inputs\<close>

definition fs_empty :: filesys where
  "fs_empty = \<lparr>disk = {}, handles = {}, created = 0\<rparr>"

text \<open>A child that starts, writes \<open>bs\<close>, exits with status 0 and takes 5 time units.\<close>

definition child_ok :: "bytes \<Rightarrow> child" where
  "child_ok bs =
     \<lparr>pipe_err = None, start_err = None, stdout = bs, read_err = None, tmpfile_err = None,
      write_err = None, seek_err = None, wait_err = None, elapsed = 5\<rparr>"

definition world_of :: "child \<Rightarrow> world" where
  "world_of ch = \<lparr>clock = 0, children = (\<lambda>n. ch), attempts = 0, started = [], wfs = fs_empty\<rparr>"

text \<open>A world whose first two children exit with status 2 and whose later ones succeed.\<close>

definition retry_world :: world where
  "retry_world =
     \<lparr>clock = 100,
      children = (\<lambda>n. if n < 2 then (child_ok ''no'')\<lparr>wait_err := Some (ExitError (Some 2))\<rparr>
                      else child_ok ''yes''),
      attempts = 0, started = [], wfs = fs_empty\<rparr>"

definition retry_opts :: options where
  "retry_opts = \<lparr>CallBack = None, Ordered' = False, Retries = 2\<rparr>"

definition failing_cb :: callback where
  "failing_cb bs = (bs, Some (OtherError ''callback failed''))"

text \<open>A result whose child was ended by a signal: \<open>ExitStatus()\<close> is \<open>-1\<close>.\<close>

definition signalled :: command where
  "signalled = newCommand (Some []) None ''c'' (Some (ExitError (Some (- 1))))"


section \<open>The record scanner (main.go: getScanner)\<close>

text \<open>\<open>bytes.Index\<close>: the index of the first instance of \<open>sep\<close> in \<open>s\<close>, or \<open>-1\<close>.\<close>

fun Index :: "bytes \<Rightarrow> bytes \<Rightarrow> int" where
  "Index [] sep = (if sep = [] then 0 else - 1)"
| "Index (x # xs) sep =
     (if prefix sep (x # xs) then 0
      else (let i = Index xs sep in if i < 0 then - 1 else i + 1))"

text \<open>
  The split function \<open>getScanner\<close> installs when \<open>RS\<close> is set: the advance and the token
  (\<open>None\<close> for nil); its error is always nil.
\<close>

definition split_rs :: "bytes \<Rightarrow> bytes \<Rightarrow> bool \<Rightarrow> int \<times> bytes option" where
  "split_rs brs data atEOF =
     (if atEOF \<and> length data = 0 then (0, None)
      else (let i = Index data brs
            in if i \<ge> 0 then (i + 1, Some (take (nat (i + int (length brs))) data))
               else if atEOF then (int (length data), Some data)
               else (0, None)))"

text \<open>
  The tokens \<open>bufio.Scanner.Scan\<close> yields with that split function, one after the other,
  until it returns false. \<open>buf\<close> is the unconsumed part of the scanner's buffer, \<open>chunks\<close>
  are the pieces later reads of stdin deliver, and \<open>eof\<close> says that a read has reported the
  end of input. Each round calls the split function when there is data or the input has
  ended, advances, and returns a token if there is one; otherwise it reads more. The
  scanner stops with an error on an advance that is negative or beyond the buffer; a token
  that comes with no advance would be returned again and again, and the model stops there
  too. With this split function neither happens (\<open>split_rs_token\<close>). The limit on a
  token's size is not modelled.
\<close>

function scan_all :: "bytes \<Rightarrow> bytes \<Rightarrow> bytes list \<Rightarrow> bool \<Rightarrow> bytes list" where
  "scan_all brs buf chunks eof =
     (if (buf \<noteq> [] \<or> eof) \<and> snd (split_rs brs buf eof) \<noteq> None
      then (if fst (split_rs brs buf eof) \<le> 0 \<or> fst (split_rs brs buf eof) > int (length buf)
            then []
            else the (snd (split_rs brs buf eof)) #
                 scan_all brs (drop (nat (fst (split_rs brs buf eof))) buf) chunks eof)
      else if eof then []
      else (case chunks of
              [] \<Rightarrow> scan_all brs buf [] True
            | c # cs \<Rightarrow> scan_all brs (buf @ c) cs False))"
  by pat_completeness auto
termination
  by (relation "inv_image (less_than <*lex*> less_than)
        (\<lambda>(brs, buf, chunks, eof). (length chunks + (if eof then 0 else 1), length buf))")
     auto

declare scan_all.simps [simp del]


section \<open>The worker pool (process/process.go: enumerate, Runner, oRunner)\<close>

text \<open>
  The goroutines of a runner and the channels between them, as a transition system. Each
  goroutine is at one of its blocking points; an action is one step of one goroutine, or a
  rendezvous of two on an unbuffered channel. A schedule is a list of actions.

  \<open>todo\<close> holds the command strings the generator has not handed over yet (the channel
  \<open>commands\<close>, closed when the list is empty), \<open>next_i\<close> is \<open>enumerate\<close>'s counter
  \<open>i\<close>. The channel made for command \<open>i\<close> is identified by \<open>i\<close>, and a result in
  flight carries the index of its command. \<open>exec i c\<close> is the result \<open>Run\<close> returns for
  the command string \<open>c\<close> started with \<open>PROCESS_I=i\<close>.
\<close>

datatype enum_pc =
    Recv
  | PushCh string
  | Offer string
  | Closed

datatype worker =
    Idle
  | Running nat string
  | Publish nat command
  | Exited

datatype coord_pc =
    DRange
  | DRecv nat
  | DSelect nat command
  | DClosed

datatype event =
    Started nat nat
  | Observed nat

datatype action =
    EnumRecv
  | EnumPush
  | EnumClose
  | Hand nat
  | Finish nat
  | Send nat
  | ObserveCancel nat
  | Leave nat
  | CloseOut
  | DrainRecv
  | DrainGet nat
  | DrainSend
  | DrainDrop
  | DrainClose
  | Consume
  | Cancel

text \<open>
  \<open>enum\<close> is where \<open>enumerate\<close>'s goroutine stands: at \<open>range commands\<close>, at
  \<open>istdout <- cmdch\<close> (ordered mode only), at \<open>ch <- istring{c, cmdch, i}\<close>, or after
  its closes. A worker is at \<open>range icommands\<close>, inside \<open>Run\<close>, at the point where it
  publishes its result, or has left its loop. \<open>coord\<close> is where \<open>oRunner\<close>'s forwarding
  goroutine stands: at \<open>range istdout\<close>, at \<open><-ch\<close>, in its \<open>select\<close> with the
  value received, or after \<open>close(stdout)\<close>. \<open>chan\<close> is the buffer of the channel
  \<open>stdout\<close> the runner returns, \<open>delivered\<close> what its reader has received so far, and
  \<open>events\<close> logs which worker started which command and which worker took the
  \<open><-cancel\<close> case.
\<close>

record pool =
  todo :: "string list"
  next_i :: nat
  enum :: enum_pc
  workers :: "worker list"
  istdout :: "nat list"
  coord :: coord_pc
  chan :: "(nat \<times> command) list"
  chan_closed :: bool
  closer_done :: bool
  cancelled :: bool
  delivered :: "(nat \<times> command) list"
  events :: "event list"
  panicked :: bool

definition pool_init :: "nat \<Rightarrow> string list \<Rightarrow> pool" where
  "pool_init P cmds =
     \<lparr>todo = cmds, next_i = 0, enum = Recv, workers = replicate P Idle, istdout = [],
      coord = DRange, chan = [], chan_closed = False, closer_done = False,
      cancelled = False, delivered = [], events = [], panicked = False\<rparr>"

subsection \<open>Steps common to both runners\<close>

text \<open>\<open>for c := range commands\<close>: take the next command; in ordered mode make its channel.\<close>

definition enum_recv :: "bool \<Rightarrow> pool \<Rightarrow> pool option" where
  "enum_recv ordered s =
     (case enum s of
        Recv \<Rightarrow>
          (case todo s of
             [] \<Rightarrow> None
           | c # cs \<Rightarrow> Some (s\<lparr>todo := cs, enum := (if ordered then PushCh c else Offer c)\<rparr>))
      | _ \<Rightarrow> None)"

text \<open>\<open>commands\<close> is closed and empty: \<open>close(ch)\<close>, and \<open>close(istdout)\<close> if there is one.\<close>

definition enum_close :: "pool \<Rightarrow> pool option" where
  "enum_close s =
     (if enum s = Recv \<and> todo s = [] then Some (s\<lparr>enum := Closed\<rparr>) else None)"

text \<open>
  \<open>ch <- istring{c, cmdch, i}\<close> meets worker \<open>w\<close>'s \<open>range icommands\<close>; the worker
  enters \<open>Run\<close>, which starts the child.
\<close>

definition hand :: "nat \<Rightarrow> pool \<Rightarrow> pool option" where
  "hand w s =
     (case enum s of
        Offer c \<Rightarrow>
          if w < length (workers s) \<and> workers s ! w = Idle
          then Some (s\<lparr>workers := (workers s)[w := Running (next_i s) c],
                       next_i := next_i s + 1, enum := Recv,
                       events := events s @ [Started w (next_i s)]\<rparr>)
          else None
      | _ \<Rightarrow> None)"

text \<open>\<open>Run\<close> returns in worker \<open>w\<close>.\<close>

definition finish :: "(nat \<Rightarrow> string \<Rightarrow> command) \<Rightarrow> nat \<Rightarrow> pool \<Rightarrow> pool option" where
  "finish exec w s =
     (if w < length (workers s)
      then (case workers s ! w of
              Running i c \<Rightarrow> Some (s\<lparr>workers := (workers s)[w := Publish i (exec i c)]\<rparr>)
            | _ \<Rightarrow> None)
      else None)"

text \<open>\<open>icommands\<close> is closed: worker \<open>w\<close> leaves its loop.\<close>

definition leave :: "nat \<Rightarrow> pool \<Rightarrow> pool option" where
  "leave w s =
     (if w < length (workers s) \<and> workers s ! w = Idle \<and> enum s = Closed
      then Some (s\<lparr>workers := (workers s)[w := Exited]\<rparr>)
      else None)"

text \<open>The reader of the returned channel receives the next result.\<close>

definition consume :: "pool \<Rightarrow> pool option" where
  "consume s =
     (case chan s of
        [] \<Rightarrow> None
      | x # xs \<Rightarrow> Some (s\<lparr>chan := xs, delivered := delivered s @ [x]\<rparr>))"

text \<open>The caller closes \<open>cancel\<close>.\<close>

definition cancel :: "pool \<Rightarrow> pool option" where
  "cancel s = (if cancelled s then None else Some (s\<lparr>cancelled := True\<rparr>))"

subsection \<open>Runner\<close>

text \<open>
  The \<open>select\<close> of worker \<open>w\<close> takes \<open>case stdout <- Run(...)\<close>: the send needs room in
  the buffer of capacity \<open>P\<close>, and panics on a closed channel.
\<close>

definition send :: "nat \<Rightarrow> nat \<Rightarrow> pool \<Rightarrow> pool option" where
  "send P w s =
     (if w < length (workers s)
      then (case workers s ! w of
              Publish i r \<Rightarrow>
                if chan_closed s then Some (s\<lparr>panicked := True\<rparr>)
                else if length (chan s) < P
                then Some (s\<lparr>chan := chan s @ [(i, r)], workers := (workers s)[w := Idle]\<rparr>)
                else None
            | _ \<Rightarrow> None)
      else None)"

text \<open>
  The \<open>select\<close> of worker \<open>w\<close> takes \<open>case <-cancel\<close>: \<open>close(stdout)\<close>, which panics
  on a closed channel, then \<open>break\<close>, which leaves the \<open>select\<close>; the worker is back at
  \<open>range icommands\<close>.
\<close>

definition observe_cancel :: "nat \<Rightarrow> pool \<Rightarrow> pool option" where
  "observe_cancel w s =
     (if w < length (workers s) \<and> cancelled s
      then (case workers s ! w of
              Publish i r \<Rightarrow>
                if chan_closed s then Some (s\<lparr>panicked := True\<rparr>)
                else Some (s\<lparr>chan_closed := True, workers := (workers s)[w := Idle],
                             events := events s @ [Observed w]\<rparr>)
            | _ \<Rightarrow> None)
      else None)"

text \<open>\<open>wg.Wait()\<close> returns when every worker has left; then \<open>close(stdout)\<close>.\<close>

definition close_out :: "pool \<Rightarrow> pool option" where
  "close_out s =
     (if (\<forall>w \<in> set (workers s). w = Exited) \<and> \<not> closer_done s
      then (if chan_closed s then Some (s\<lparr>panicked := True\<rparr>)
            else Some (s\<lparr>chan_closed := True, closer_done := True\<rparr>))
      else None)"

definition Runner_step ::
  "nat \<Rightarrow> (nat \<Rightarrow> string \<Rightarrow> command) \<Rightarrow> action \<Rightarrow> pool \<Rightarrow> pool option" where
  "Runner_step P exec a s =
     (if panicked s then None
      else (case a of
              EnumRecv \<Rightarrow> enum_recv False s
            | EnumClose \<Rightarrow> enum_close s
            | Hand w \<Rightarrow> hand w s
            | Finish w \<Rightarrow> finish exec w s
            | Send w \<Rightarrow> send P w s
            | ObserveCancel w \<Rightarrow> observe_cancel w s
            | Leave w \<Rightarrow> leave w s
            | CloseOut \<Rightarrow> close_out s
            | Consume \<Rightarrow> consume s
            | Cancel \<Rightarrow> cancel s
            | _ \<Rightarrow> None))"

subsection \<open>oRunner\<close>

text \<open>
  \<open>istdout <- cmdch\<close> on the channel of capacity \<open>cap\<close>: into the buffer when it has
  room, or straight to the forwarding goroutine when that waits at \<open>range istdout\<close> on an
  empty buffer.
\<close>

definition enum_push :: "nat \<Rightarrow> pool \<Rightarrow> pool option" where
  "enum_push cap s =
     (case enum s of
        PushCh c \<Rightarrow>
          if length (istdout s) < cap
          then Some (s\<lparr>istdout := istdout s @ [next_i s], enum := Offer c\<rparr>)
          else if istdout s = [] \<and> coord s = DRange
          then Some (s\<lparr>coord := DRecv (next_i s), enum := Offer c\<rparr>)
          else None
      | _ \<Rightarrow> None)"

text \<open>\<open>for ch := range istdout\<close> receives the next channel.\<close>

definition drain_recv :: "pool \<Rightarrow> pool option" where
  "drain_recv s =
     (case coord s of
        DRange \<Rightarrow>
          (case istdout s of
             [] \<Rightarrow> None
           | i # q \<Rightarrow> Some (s\<lparr>istdout := q, coord := DRecv i\<rparr>))
      | _ \<Rightarrow> None)"

text \<open>
  \<open>command.ch <- cmd\<close> in \<open>oRun\<close> of worker \<open>w\<close> meets \<open><-ch\<close> of the forwarding
  goroutine on the same channel; the worker closes the channel and is back at
  \<open>range icommands\<close>.
\<close>

definition drain_get :: "nat \<Rightarrow> pool \<Rightarrow> pool option" where
  "drain_get w s =
     (if w < length (workers s)
      then (case workers s ! w of
              Publish i r \<Rightarrow>
                if coord s = DRecv i
                then Some (s\<lparr>coord := DSelect i r, workers := (workers s)[w := Idle]\<rparr>)
                else None
            | _ \<Rightarrow> None)
      else None)"

text \<open>The \<open>select\<close> takes \<open>case stdout <- ...\<close>: the buffer of capacity \<open>P\<close> has room.\<close>

definition drain_send :: "nat \<Rightarrow> pool \<Rightarrow> pool option" where
  "drain_send P s =
     (case coord s of
        DSelect i r \<Rightarrow>
          if length (chan s) < P
          then Some (s\<lparr>chan := chan s @ [(i, r)], coord := DRange\<rparr>)
          else None
      | _ \<Rightarrow> None)"

text \<open>
  The \<open>select\<close> takes \<open>case <-cancel\<close>: the value received is dropped, \<open>break\<close>
  leaves the \<open>select\<close>, and the loop goes on.
\<close>

definition drain_drop :: "pool \<Rightarrow> pool option" where
  "drain_drop s =
     (case coord s of
        DSelect i r \<Rightarrow> if cancelled s then Some (s\<lparr>coord := DRange\<rparr>) else None
      | _ \<Rightarrow> None)"

text \<open>\<open>istdout\<close> is closed and empty: the loop ends, \<open>close(stdout)\<close>.\<close>

definition drain_close :: "pool \<Rightarrow> pool option" where
  "drain_close s =
     (if coord s = DRange \<and> istdout s = [] \<and> enum s = Closed
      then Some (s\<lparr>coord := DClosed, chan_closed := True\<rparr>)
      else None)"

text \<open>
  \<open>oRunner\<close> with \<open>P\<close> for \<open>runtime.GOMAXPROCS(0)\<close> and \<open>W\<close> for
  \<open>WaitingMultiplier\<close>.
\<close>

definition oRunner_step ::
  "nat \<Rightarrow> nat \<Rightarrow> (nat \<Rightarrow> string \<Rightarrow> command) \<Rightarrow> action \<Rightarrow> pool \<Rightarrow> pool option" where
  "oRunner_step P W exec a s =
     (if panicked s then None
      else (case a of
              EnumRecv \<Rightarrow> enum_recv True s
            | EnumPush \<Rightarrow> enum_push (W * P) s
            | EnumClose \<Rightarrow> enum_close s
            | Hand w \<Rightarrow> hand w s
            | Finish w \<Rightarrow> finish exec w s
            | Leave w \<Rightarrow> leave w s
            | DrainRecv \<Rightarrow> drain_recv s
            | DrainGet w \<Rightarrow> drain_get w s
            | DrainSend \<Rightarrow> drain_send P s
            | DrainDrop \<Rightarrow> drain_drop s
            | DrainClose \<Rightarrow> drain_close s
            | Consume \<Rightarrow> consume s
            | Cancel \<Rightarrow> cancel s
            | _ \<Rightarrow> None))"

definition WaitingMultiplier :: nat where
  "WaitingMultiplier = 4"

text \<open>The state a schedule leads to, if each of its actions can be taken in turn.\<close>

fun run_schedule :: "(action \<Rightarrow> pool \<Rightarrow> pool option) \<Rightarrow> action list \<Rightarrow> pool \<Rightarrow> pool option" where
  "run_schedule step [] s = Some s"
| "run_schedule step (a # as) s =
     (case step a s of None \<Rightarrow> None | Some s' \<Rightarrow> run_schedule step as s')"


subsection \<open>What a state of the ordered runner holds\<close>

text \<open>
  The indices of the results and channels between the workers and the reader of the
  returned channel, from the oldest on: what the reader has received, the buffer of
  \<open>stdout\<close>, the forwarding goroutine's current channel, and the queue \<open>istdout\<close>.
\<close>

definition coord_idx :: "coord_pc \<Rightarrow> nat list" where
  "coord_idx d = (case d of DRecv i \<Rightarrow> [i] | DSelect i r \<Rightarrow> [i] | _ \<Rightarrow> [])"

definition pipeline :: "pool \<Rightarrow> nat list" where
  "pipeline s = map fst (delivered s) @ map fst (chan s) @ coord_idx (coord s) @ istdout s"

text \<open>
  The number of channels \<open>enumerate\<close> has put on \<open>istdout\<close>, and the number of
  commands it has taken from \<open>commands\<close>.
\<close>

definition enum_pushed :: "enum_pc \<Rightarrow> nat" where
  "enum_pushed e = (case e of Offer c \<Rightarrow> 1 | _ \<Rightarrow> 0)"

definition enum_taken :: "enum_pc \<Rightarrow> nat" where
  "enum_taken e = (case e of Offer c \<Rightarrow> 1 | PushCh c \<Rightarrow> 1 | _ \<Rightarrow> 0)"

definition pushed :: "pool \<Rightarrow> nat" where
  "pushed s = next_i s + enum_pushed (enum s)"

text \<open>
  What each goroutine holds belongs to the command of its index: the command string in
  \<open>enumerate\<close> and in a running worker, the result of \<open>Run\<close> in a publishing worker, in
  the forwarding goroutine, in the buffer of \<open>stdout\<close> and at the reader.
\<close>

definition enum_ok :: "string list \<Rightarrow> nat \<Rightarrow> enum_pc \<Rightarrow> bool" where
  "enum_ok cmds n e =
     (case e of PushCh c \<Rightarrow> c = cmds ! n | Offer c \<Rightarrow> c = cmds ! n | _ \<Rightarrow> True)"

definition worker_ok :: "(nat \<Rightarrow> string \<Rightarrow> command) \<Rightarrow> string list \<Rightarrow> nat \<Rightarrow> worker \<Rightarrow> bool" where
  "worker_ok exec cmds n w =
     (case w of
        Running i c \<Rightarrow> i < n \<and> c = cmds ! i
      | Publish i r \<Rightarrow> i < n \<and> r = exec i (cmds ! i)
      | _ \<Rightarrow> True)"

definition coord_ok :: "(nat \<Rightarrow> string \<Rightarrow> command) \<Rightarrow> string list \<Rightarrow> coord_pc \<Rightarrow> bool" where
  "coord_ok exec cmds d = (case d of DSelect i r \<Rightarrow> r = exec i (cmds ! i) | _ \<Rightarrow> True)"

definition results_ok :: "(nat \<Rightarrow> string \<Rightarrow> command) \<Rightarrow> string list \<Rightarrow> (nat \<times> command) list \<Rightarrow> bool" where
  "results_ok exec cmds xs = (\<forall>x \<in> set xs. snd x = exec (fst x) (cmds ! fst x))"

definition ordered_upto :: "bool \<Rightarrow> nat \<Rightarrow> nat list \<Rightarrow> bool" where
  "ordered_upto c n xs =
     (sorted_wrt (<) xs \<and> (\<forall>i \<in> set xs. i < n) \<and> (\<not> c \<longrightarrow> xs = [0..<n]))"

definition order_inv :: "pool \<Rightarrow> bool" where
  "order_inv s = ordered_upto (cancelled s) (pushed s) (pipeline s)"

definition source_inv :: "string list \<Rightarrow> pool \<Rightarrow> bool" where
  "source_inv cmds s =
     (todo s = drop (next_i s + enum_taken (enum s)) cmds
      \<and> next_i s + enum_taken (enum s) \<le> length cmds
      \<and> enum_ok cmds (next_i s) (enum s)
      \<and> (enum s = Closed \<longrightarrow> todo s = [])
      \<and> (coord s = DClosed \<longrightarrow> enum s = Closed \<and> istdout s = []))"

definition result_inv :: "(nat \<Rightarrow> string \<Rightarrow> command) \<Rightarrow> string list \<Rightarrow> pool \<Rightarrow> bool" where
  "result_inv exec cmds s =
     ((\<forall>w \<in> set (workers s). worker_ok exec cmds (next_i s) w)
      \<and> coord_ok exec cmds (coord s)
      \<and> results_ok exec cmds (chan s)
      \<and> results_ok exec cmds (delivered s))"

definition capacity_inv :: "nat \<Rightarrow> nat \<Rightarrow> pool \<Rightarrow> bool" where
  "capacity_inv P W s = (length (istdout s) \<le> W * P \<and> length (chan s) \<le> P)"

text \<open>
  The bytes a result serves, the results of all commands in emission order, and the state
  in which the returned channel is closed and empty (the reader's \<open>range\<close> loop ends).
\<close>

definition stdout_of :: "command \<Rightarrow> bytes" where
  "stdout_of c = (case Reader c of None \<Rightarrow> [] | Some bs \<Rightarrow> bs)"

definition expected :: "(nat \<Rightarrow> string \<Rightarrow> command) \<Rightarrow> string list \<Rightarrow> (nat \<times> command) list" where
  "expected exec cmds = map (\<lambda>i. (i, exec i (cmds ! i))) [0..<length cmds]"

definition finished :: "pool \<Rightarrow> bool" where
  "finished s = (coord s = DClosed \<and> chan s = [])"

text \<open>
  \<open>holds w i\<close>: the worker runs, or has the result of, command \<open>i\<close>. The results that
  are complete but not released: those of the workers blocked at their send on a channel
  the forwarding goroutine is not receiving from, because an earlier command is not done.
\<close>

definition holds :: "worker \<Rightarrow> nat \<Rightarrow> bool" where
  "holds w i = (case w of Running j c \<Rightarrow> j = i | Publish j r \<Rightarrow> j = i | _ \<Rightarrow> False)"

definition unreleased :: "pool \<Rightarrow> worker list" where
  "unreleased s =
     filter (\<lambda>w. case w of Publish i r \<Rightarrow> coord s \<noteq> DRecv i | _ \<Rightarrow> False) (workers s)"

text \<open>
  A channel is on the queue, or with the forwarding goroutine, from before its command is
  handed to a worker until the worker's send; no two workers hold the same command.
\<close>

definition slot_inv :: "nat \<Rightarrow> pool \<Rightarrow> bool" where
  "slot_inv P s =
     (length (workers s) = P
      \<and> (\<forall>w<length (workers s). \<forall>i. holds (workers s ! w) i \<longrightarrow>
            i < next_i s \<and> (i \<in> set (istdout s) \<or> coord s = DRecv i))
      \<and> (\<forall>w1<length (workers s). \<forall>w2<length (workers s). \<forall>i.
            holds (workers s ! w1) i \<and> holds (workers s ! w2) i \<longrightarrow> w1 = w2)
      \<and> ((\<exists>c. enum s = Offer c) \<longrightarrow>
            next_i s \<in> set (istdout s) \<or> coord s = DRecv (next_i s)))"

subsection \<open>Example runs\<close>

text \<open>A command that prints its own text and succeeds.\<close>

definition echo :: "nat \<Rightarrow> string \<Rightarrow> command" where
  "echo i c = newCommand (Some c) None c None"

text \<open>
  Two workers and two commands in ordered mode; the second command completes first.
\<close>

definition sched_ab :: "action list" where
  "sched_ab =
     [EnumRecv, EnumPush, Hand 0, EnumRecv, EnumPush, Hand 1, EnumClose, Finish 1, DrainRecv,
      Finish 0, DrainGet 0, DrainSend, DrainRecv, DrainGet 1, DrainSend, DrainClose,
      Consume, Consume, Leave 0, Leave 1]"

definition final_ab :: pool where
  "final_ab =
     \<lparr>todo = [], next_i = 2, enum = Closed, workers = [Exited, Exited], istdout = [],
      coord = DClosed, chan = [], chan_closed = True, closer_done = False, cancelled = False,
      delivered = [(0, echo 0 ''a''), (1, echo 1 ''b'')],
      events = [Started 0 0, Started 1 1], panicked = False\<rparr>"

text \<open>
  The second command has completed and waits in the queue behind the first.
\<close>

definition sched_wait :: "action list" where
  "sched_wait =
     [EnumRecv, EnumPush, Hand 0, EnumRecv, EnumPush, Hand 1, Finish 1]"

text \<open>
  Unordered mode: worker 0 runs one command after the other and sends each result, filling
  the result channel; then it holds one more result. \<open>filled k\<close> is the state after \<open>k\<close>
  rounds.
\<close>

definition fill_round :: "action list" where
  "fill_round = [EnumRecv, Hand 0, Finish 0, Send 0]"

definition fill_schedule :: "nat \<Rightarrow> action list" where
  "fill_schedule P = concat (replicate P fill_round) @ [EnumRecv, Hand 0, Finish 0]"

definition filled :: "nat \<Rightarrow> (nat \<Rightarrow> string \<Rightarrow> command) \<Rightarrow> string list \<Rightarrow> nat \<Rightarrow> pool" where
  "filled P exec cmds k =
     (pool_init P cmds)
       \<lparr>todo := drop k cmds, next_i := k, chan := take k (expected exec cmds),
        events := map (Started 0) [0..<k]\<rparr>"

text \<open>
  One worker, unordered mode: the first command completes, \<open>cancel\<close> is closed, the
  worker's \<open>select\<close> takes \<open><-cancel\<close>, and the worker receives the second command.
\<close>

definition sched_cancel :: "action list" where
  "sched_cancel = [EnumRecv, Hand 0, Finish 0, Cancel, ObserveCancel 0, EnumRecv, Hand 0]"


text \<open>
  A schedule that runs the commands one after the other on worker 0. With a queue of
  capacity 0 the channel goes straight to the forwarding goroutine. \<open>quiescent k\<close> is the
  state after \<open>k\<close> such rounds.
\<close>

definition seq_round :: "nat \<Rightarrow> action list" where
  "seq_round cap =
     (if cap = 0
      then [EnumRecv, EnumPush, Hand 0, Finish 0, DrainGet 0, DrainSend, Consume]
      else [EnumRecv, EnumPush, DrainRecv, Hand 0, Finish 0, DrainGet 0, DrainSend, Consume])"

definition seq_schedule :: "nat \<Rightarrow> nat \<Rightarrow> action list" where
  "seq_schedule cap n = concat (replicate n (seq_round cap)) @ [EnumClose, DrainClose]"

definition quiescent :: "nat \<Rightarrow> (nat \<Rightarrow> string \<Rightarrow> command) \<Rightarrow> string list \<Rightarrow> nat \<Rightarrow> pool" where
  "quiescent P exec cmds k =
     (pool_init P cmds)
       \<lparr>todo := drop k cmds, next_i := k, delivered := take k (expected exec cmds),
        events := map (Started 0) [0..<k]\<rparr>"






text \<open>What \<open>oneRun\<close> returns when \<open>cmd.Start()\<close> fails.\<close>

definition launch_failed :: command where
  "launch_failed = newCommand None None ''c'' (Some (OtherError ''exec: not started''))"

section \<open>Properties\<close>

subsection \<open>Configuration\<close>








subsection \<open>Releasing a result\<close>

lemma Cleanup_tmp:
  "tmp c = Some f \<Longrightarrow>
     Cleanup c fs = Inr (fs\<lparr>handles := handles fs - {f}, disk := disk fs - {f}\<rparr>)"
  by (cases fs) (auto simp: Cleanup_def cleanup_def Close_def file_Close_def os_Remove_def)

text \<open>
  C10. For a result with no temp file, \<open>Close\<close> returns nil and \<open>Close\<close> and \<open>Cleanup\<close>
  leave the file system as it is. For a result backed by a temp file, \<open>Cleanup\<close> closes
  the file and removes it from disk and touches no other file. \<open>Cleanup\<close> never panics.
\<close>

theorem Close_Cleanup_safe:
  "(tmp c = None \<longrightarrow> Close c fs = (None, fs) \<and> Cleanup c fs = Inr fs)
   \<and> (\<forall>f. tmp c = Some f \<longrightarrow>
         Cleanup c fs = Inr (fs\<lparr>handles := handles fs - {f}, disk := disk fs - {f}\<rparr>)
         \<and> (\<forall>fs'. Cleanup c fs = Inr fs' \<longrightarrow> f \<notin> handles fs' \<and> f \<notin> disk fs'))
   \<and> Cleanup c fs \<noteq> Inl Panic"
proof (cases "tmp c")
  case None
  then show ?thesis by (simp add: Cleanup_def Close_def)
next
  case (Some f)
  then show ?thesis using Cleanup_tmp [of c f fs] by auto
qed

theorem Close_Cleanup_safe_witness:
  "Close (newCommand (Some ''out'') None ''cmd'' None) fs_empty = (None, fs_empty)
   \<and> Cleanup (newCommand (Some ''out'') None ''cmd'' None) fs_empty = Inr fs_empty
   \<and> Cleanup (newCommand (Some ''out'') (Some 3) ''cmd'' None)
         \<lparr>disk = {3, 4}, handles = {3}, created = 5\<rparr>
       = Inr \<lparr>disk = {4}, handles = {}, created = 5\<rparr>"
  using Close_Cleanup_safe [of "newCommand (Some ''out'') None ''cmd'' None" fs_empty]
        Close_Cleanup_safe [of "newCommand (Some ''out'') (Some 3) ''cmd'' None"
           "\<lparr>disk = {3, 4}, handles = {3}, created = 5\<rparr>"]
  by (auto simp: newCommand_def)

subsection \<open>The worst exit code\<close>

lemma Max_insert_max:
  "finite S \<Longrightarrow> Max (insert (max a x) S) = Max (insert (a::int) (insert x S))"
  by (cases "S = {}") (auto simp: max_def)

lemma run_loop_max:
  "0 \<le> main_ExitCode d \<Longrightarrow> run_loop args ps d = Inr d' \<Longrightarrow>
     main_ExitCode d \<le> main_ExitCode d' \<and>
     main_ExitCode d' = Max (insert (main_ExitCode d) (set (observed args ps)))"
proof (induction ps arbitrary: d)
  case Nil
  then show ?case by simp
next
  case (Cons p ps)
  let ?ex = "ExitCode p"
  let ?m = "if ?ex \<noteq> 0 then max_int (main_ExitCode d) ?ex else main_ExitCode d"
  have m: "?m = max (main_ExitCode d) ?ex"
    using Cons.prems(1) by (auto simp: max_int_def max_def)
  show ?case
  proof (cases "?ex \<noteq> 0 \<and> StopOnError args")
    case True
    with Cons.prems have "main_ExitCode d' = ?m"
      by (auto simp: Let_def)
    with m True show ?thesis by (simp add: max_def)
  next
    case False
    with Cons.prems(2) obtain d1 where
      rec: "run_loop args ps d1 = Inr d'" and d1: "main_ExitCode d1 = ?m"
      by (auto simp: Let_def split: option.splits sum.splits if_splits)
    have "0 \<le> main_ExitCode d1" using d1 m Cons.prems(1) by simp
    from Cons.IH [OF this rec] have
      "main_ExitCode d1 \<le> main_ExitCode d'"
      "main_ExitCode d' = Max (insert (main_ExitCode d1) (set (observed args ps)))"
      by simp_all
    moreover have "observed args (p # ps) = ?ex # observed args ps"
      using False by auto
    ultimately show ?thesis
      using d1 m by (simp add: Max_insert_max del: observed.simps)
  qed
qed

lemma observed_all_zero:
  "\<forall>p \<in> set ps. ExitCode p = 0 \<Longrightarrow> set (observed args ps) \<subseteq> {0}"
  by (induction ps) auto

text \<open>
  From a non-negative counter the loop never decreases it, and when it finishes the counter
  is the maximum of its start value and the exit codes observed; so when \<open>run\<close> finishes,
  the process exits with the maximum of 0 and the observed exit codes.
\<close>

theorem worst_exit_code:
  "(0 \<le> main_ExitCode d \<and> run_loop args ps d = Inr d' \<longrightarrow>
      main_ExitCode d \<le> main_ExitCode d' \<and>
      main_ExitCode d' = Max (insert (main_ExitCode d) (set (observed args ps))))
   \<and> (main_config args0 = Inr args \<and> run args ps fs = Inr d' \<longrightarrow>
      main args0 True ps fs = Exit (Max (insert 0 (set (observed args ps)))))
   \<and> (main_config args0 = Inr args \<and> run args ps fs = Inr d' \<and> (\<forall>p \<in> set ps. ExitCode p = 0) \<longrightarrow>
      main args0 True ps fs = Exit 0)"
proof (intro conjI impI)
  assume "0 \<le> main_ExitCode d \<and> run_loop args ps d = Inr d'"
  then show "main_ExitCode d \<le> main_ExitCode d'"
    and "main_ExitCode d' = Max (insert (main_ExitCode d) (set (observed args ps)))"
    using run_loop_max by blast+
next
  assume a: "main_config args0 = Inr args \<and> run args ps fs = Inr d'"
  then have "main_ExitCode d' = Max (insert 0 (set (observed args ps)))"
    using run_loop_max [of "\<lparr>main_ExitCode = 0, fails = 0, out = [], dfs = fs\<rparr>" args ps d']
    by (simp add: run_def)
  with a show "main args0 True ps fs = Exit (Max (insert 0 (set (observed args ps))))"
    by (simp add: main_def)
next
  assume a: "main_config args0 = Inr args \<and> run args ps fs = Inr d' \<and> (\<forall>p \<in> set ps. ExitCode p = 0)"
  then have m: "main_ExitCode d' = Max (insert 0 (set (observed args ps)))"
    using run_loop_max [of "\<lparr>main_ExitCode = 0, fails = 0, out = [], dfs = fs\<rparr>" args ps d']
    by (simp add: run_def)
  have "set (observed args ps) \<subseteq> {0}"
    using a observed_all_zero by blast
  then have "insert 0 (set (observed args ps)) = {0}" by auto
  with m a show "main args0 True ps fs = Exit 0"
    by (simp add: main_def)
qed

theorem worst_exit_code_witness:
  "main (default_params ''c'') True
      [newCommand (Some ''a'') None ''c'' (Some (ExitError (Some 3))),
       newCommand (Some ''b'') None ''c'' None,
       newCommand (Some ''c'') None ''c'' (Some (ExitError (Some 2)))] fs_empty = Exit 3
   \<and> main (default_params ''c'') True [newCommand (Some ''b'') None ''c'' None] fs_empty = Exit 0"
proof -
  let ?ps = "[newCommand (Some ''a'') None ''c'' (Some (ExitError (Some 3))),
       newCommand (Some ''b'') None ''c'' None,
       newCommand (Some ''c'') None ''c'' (Some (ExitError (Some 2)))]"
  let ?args = "(default_params ''c'')\<lparr>Sep := whitespace_re\<rparr>"
  have cfg: "main_config (default_params ''c'') = Inr ?args"
    by (simp add: main_config_def default_params_def)
  have r1: "\<exists>d. run ?args ?ps fs_empty = Inr d"
    by (simp add: run_def default_params_def newCommand_def ExitCode_def Cleanup_def
          max_int_def Let_def)
  have r2: "\<exists>d. run ?args [newCommand (Some ''b'') None ''c'' None] fs_empty = Inr d"
    by (simp add: run_def default_params_def newCommand_def ExitCode_def Cleanup_def Let_def)
  have o1: "observed ?args ?ps = [3, 0, 2]"
    by (simp add: newCommand_def ExitCode_def default_params_def)
  have o2: "\<forall>p \<in> set [newCommand (Some ''b'') None ''c'' None]. ExitCode p = 0"
    by (simp add: newCommand_def ExitCode_def)
  from r1 obtain d1 where d1: "run ?args ?ps fs_empty = Inr d1" by blast
  from r2 obtain d2 where d2: "run ?args [newCommand (Some ''b'') None ''c'' None] fs_empty = Inr d2"
    by blast
  have "main (default_params ''c'') True ?ps fs_empty = Exit (Max (insert 0 (set (observed ?args ?ps))))"
    using worst_exit_code [of _ ?args ?ps _ "default_params ''c''" fs_empty] cfg d1 by blast
  moreover have "main (default_params ''c'') True [newCommand (Some ''b'') None ''c'' None] fs_empty = Exit 0"
    using worst_exit_code [of _ ?args "[newCommand (Some ''b'') None ''c'' None]" d2
        "default_params ''c''" fs_empty] cfg d2 o2 by blast
  ultimately show ?thesis by (simp add: o1 del: observed.simps)
qed

text \<open>
  C2 at two failing inputs. A child ended by a signal gives the result \<open>signalled\<close>, whose
  exit code is \<open>-1\<close>: the drain counts one failure, the counter stays 0 and the process
  exits with 0, not with the highest exit code seen. A child that cannot be started gives
  the result \<open>launch_failed\<close>, whose exit code is 1 and whose reader is nil: the drain
  observes the exit code 1 and then panics in \<open>io.Copy\<close>, so the process does not exit
  with the counter's value.
\<close>

theorem worst_exit_code_signalled:
  "fst (oneRun BufferSize ''c'' None []
          (world_of ((child_ok [])\<lparr>wait_err := Some (ExitError (Some (- 1)))\<rparr>))) = signalled
   \<and> observed ((default_params ''c'')\<lparr>Sep := whitespace_re\<rparr>) [signalled] = [- 1]
   \<and> run ((default_params ''c'')\<lparr>Sep := whitespace_re\<rparr>) [signalled] fs_empty
       = Inr \<lparr>main_ExitCode = 0, fails = 1, out = [], dfs = fs_empty\<rparr>
   \<and> main (default_params ''c'') True [signalled] fs_empty = Exit 0
   \<and> fst (oneRun BufferSize ''c'' None []
          (world_of ((child_ok [])\<lparr>start_err := Some (OtherError ''exec: not started'')\<rparr>)))
       = launch_failed
   \<and> observed ((default_params ''c'')\<lparr>Sep := whitespace_re\<rparr>) [launch_failed] = [1]
   \<and> main (default_params ''c'') True [launch_failed] fs_empty = Panic"
  by (simp add: main_def main_config_def default_params_def run_def newCommand_def ExitCode_def
       max_int_def Cleanup_def Let_def signalled_def launch_failed_def fs_empty_def
       UnknownExit_def oneRun_def world_of_def child_ok_def BufferSize_def NewReaderSize_def
       Peek_def callback_err_def)

theorem worst_exit_code_signalled_witness:
  "main (default_params ''c'') True [signalled] fs_empty \<noteq> Exit (- 1)
   \<and> main (default_params ''c'') True [launch_failed] fs_empty \<noteq> Exit 1"
  using worst_exit_code_signalled by simp


subsection \<open>Retries\<close>

lemma retry_loop_nth:
  "int k \<le> r \<Longrightarrow>
   \<forall>i<k. ExitCode (fst (nth_attempt B cmd cb env w (j + i))) \<noteq> 0 \<Longrightarrow>
   ExitCode (fst (nth_attempt B cmd cb env w (j + k))) = 0 \<or> int k = r \<Longrightarrow>
   retry_loop B cmd cb env r (nth_attempt B cmd cb env w j) = nth_attempt B cmd cb env w (j + k)"
proof (induction k arbitrary: r j)
  case 0
  then show ?case by (subst retry_loop.simps) auto
next
  case (Suc k)
  have fail: "ExitCode (fst (nth_attempt B cmd cb env w j)) \<noteq> 0"
    using Suc.prems(2) by (metis add.right_neutral zero_less_Suc)
  have r: "0 < r" using Suc.prems(1) by simp
  have step: "retry_loop B cmd cb env r (nth_attempt B cmd cb env w j)
      = retry_loop B cmd cb env (r - 1) (nth_attempt B cmd cb env w (Suc j))"
    using fail r by (subst retry_loop.simps) simp
  have "retry_loop B cmd cb env (r - 1) (nth_attempt B cmd cb env w (Suc j))
      = nth_attempt B cmd cb env w (Suc j + k)"
  proof (rule Suc.IH)
    show "int k \<le> r - 1" using Suc.prems(1) by simp
    show "\<forall>i<k. ExitCode (fst (nth_attempt B cmd cb env w (Suc j + i))) \<noteq> 0"
      using Suc.prems(2) by (metis Suc_less_eq add_Suc_shift)
    show "ExitCode (fst (nth_attempt B cmd cb env w (Suc j + k))) = 0 \<or> int k = r - 1"
      using Suc.prems(3) by auto
  qed
  with step show ?case by simp
qed

lemma first_success_ex:
  "\<exists>k\<le>(n::nat). (\<forall>i<k. P i) \<and> (\<not> P k \<or> k = n)"
proof (induction n)
  case 0
  then show ?case by simp
next
  case (Suc n)
  then obtain k where k: "k \<le> n" "\<forall>i<k. P i" "\<not> P k \<or> k = n" by blast
  show ?case
  proof (cases "P k")
    case False
    with k show ?thesis by (intro exI [of _ k]) auto
  next
    case True
    with k have "k = n" by simp
    with True k have "\<forall>i<Suc n. P i" using less_Suc_eq by auto
    then show ?thesis by (intro exI [of _ "Suc n"]) auto
  qed
qed

lemma nth_attempt_attempts:
  "attempts (snd (nth_attempt B cmd cb env w k)) = attempts w + k + 1"
  by (induction k) (auto simp: oneRun_def Let_def split: option.splits prod.splits)

lemma oneRun_CmdStr: "CmdStr (fst (oneRun B cmd cb env w)) = cmd"
  by (auto simp: oneRun_def Let_def newCommand_def split: option.splits prod.splits)

text \<open>
  C3. With retry budget \<open>Retries opt\<close>, \<open>Run\<close> calls \<open>oneRun\<close> again on the same command
  string, callback and environment while the last attempt failed and retries remain: if
  attempt \<open>k\<close> (counted from 0) is the first that succeeds, or the budget ends there, \<open>Run\<close>
  returns that attempt's result, with \<open>Duration\<close> the time from before the first attempt
  to after the last, after \<open>k + 1\<close> attempts in all. Such a \<open>k\<close> exists for every
  non-negative budget.
\<close>

theorem Run_retries:
  "(int k \<le> Retries opt \<and>
    (\<forall>i<k. ExitCode (fst (nth_attempt B cmd (CallBack opt) env w i)) \<noteq> 0) \<and>
    (ExitCode (fst (nth_attempt B cmd (CallBack opt) env w k)) = 0 \<or> int k = Retries opt)
    \<longrightarrow>
      Run B cmd (Some opt) env w =
        ((fst (nth_attempt B cmd (CallBack opt) env w k))
           \<lparr>Duration := clock (snd (nth_attempt B cmd (CallBack opt) env w k)) - clock w\<rparr>,
         snd (nth_attempt B cmd (CallBack opt) env w k))
      \<and> CmdStr (fst (Run B cmd (Some opt) env w)) = cmd
      \<and> attempts (snd (Run B cmd (Some opt) env w)) = attempts w + k + 1)
   \<and> (0 \<le> Retries opt \<longrightarrow>
        (\<exists>k. int k \<le> Retries opt \<and>
          (\<forall>i<k. ExitCode (fst (nth_attempt B cmd (CallBack opt) env w i)) \<noteq> 0) \<and>
          (ExitCode (fst (nth_attempt B cmd (CallBack opt) env w k)) = 0 \<or> int k = Retries opt)))"
proof (intro conjI impI)
  assume a: "int k \<le> Retries opt \<and>
    (\<forall>i<k. ExitCode (fst (nth_attempt B cmd (CallBack opt) env w i)) \<noteq> 0) \<and>
    (ExitCode (fst (nth_attempt B cmd (CallBack opt) env w k)) = 0 \<or> int k = Retries opt)"
  have "retry_loop B cmd (CallBack opt) env (Retries opt) (nth_attempt B cmd (CallBack opt) env w 0)
        = nth_attempt B cmd (CallBack opt) env w (0 + k)"
    using a by (intro retry_loop_nth) auto
  then have loop: "retry_loop B cmd (CallBack opt) env (Retries opt) (oneRun B cmd (CallBack opt) env w)
        = nth_attempt B cmd (CallBack opt) env w k"
    by simp
  show run: "Run B cmd (Some opt) env w =
        ((fst (nth_attempt B cmd (CallBack opt) env w k))
           \<lparr>Duration := clock (snd (nth_attempt B cmd (CallBack opt) env w k)) - clock w\<rparr>,
         snd (nth_attempt B cmd (CallBack opt) env w k))"
    by (simp add: Run_def Let_def loop)
  show "CmdStr (fst (Run B cmd (Some opt) env w)) = cmd"
    unfolding run by (cases k) (simp_all add: oneRun_CmdStr)
  show "attempts (snd (Run B cmd (Some opt) env w)) = attempts w + k + 1"
    unfolding run by (simp add: nth_attempt_attempts)
next
  assume r: "0 \<le> Retries opt"
  obtain k where k: "k \<le> nat (Retries opt)"
     "\<forall>i<k. ExitCode (fst (nth_attempt B cmd (CallBack opt) env w i)) \<noteq> 0"
     "\<not> ExitCode (fst (nth_attempt B cmd (CallBack opt) env w k)) \<noteq> 0 \<or> k = nat (Retries opt)"
    using first_success_ex [of "nat (Retries opt)"
        "\<lambda>i. ExitCode (fst (nth_attempt B cmd (CallBack opt) env w i)) \<noteq> 0"]
    by blast
  show "\<exists>k. int k \<le> Retries opt \<and>
          (\<forall>i<k. ExitCode (fst (nth_attempt B cmd (CallBack opt) env w i)) \<noteq> 0) \<and>
          (ExitCode (fst (nth_attempt B cmd (CallBack opt) env w k)) = 0 \<or> int k = Retries opt)"
    using k r by (intro exI [of _ k]) auto
qed

lemma retry_world_attempts:
  "ExitCode (fst (nth_attempt 1024 ''cmd'' None [] retry_world 0)) = 2"
  "ExitCode (fst (nth_attempt 1024 ''cmd'' None [] retry_world (Suc 0))) = 2"
  "nth_attempt 1024 ''cmd'' None [] retry_world (Suc (Suc 0)) =
     (newCommand (Some ''yes'') None ''cmd'' None,
      retry_world\<lparr>attempts := 3, started := [''cmd'', ''cmd'', ''cmd''], clock := 115\<rparr>)"
  by (simp_all add: retry_world_def child_ok_def fs_empty_def oneRun_def Let_def NewReaderSize_def Peek_def
       callback_err_def newCommand_def ExitCode_def)

theorem Run_retries_witness:
  "Run 1024 ''cmd'' (Some retry_opts) [] retry_world =
     (\<lparr>Reader = Some ''yes'', tmp = None, Err = None, CmdStr = ''cmd'', Duration = 15,
       finalizer = False\<rparr>,
      retry_world\<lparr>attempts := 3, started := [''cmd'', ''cmd'', ''cmd''], clock := 115\<rparr>)
   \<and> ExitCode (fst (Run 1024 ''cmd'' (Some retry_opts) [] retry_world)) = 0"
proof -
  have "\<forall>i<2. ExitCode (fst (nth_attempt 1024 ''cmd'' None [] retry_world i)) \<noteq> 0"
    using retry_world_attempts by (auto simp: less_Suc_eq numeral_2_eq_2)
  then have "Run 1024 ''cmd'' (Some retry_opts) [] retry_world =
        ((fst (nth_attempt 1024 ''cmd'' (CallBack retry_opts) [] retry_world 2))
           \<lparr>Duration := clock (snd (nth_attempt 1024 ''cmd'' (CallBack retry_opts) [] retry_world 2)) - clock retry_world\<rparr>,
         snd (nth_attempt 1024 ''cmd'' (CallBack retry_opts) [] retry_world 2))"
    using Run_retries [of 2 retry_opts 1024 "''cmd''" "[]" retry_world] retry_world_attempts
    by (simp add: retry_opts_def numeral_2_eq_2 newCommand_def ExitCode_def)
  then show ?thesis
    using retry_world_attempts by (simp add: retry_opts_def numeral_2_eq_2 newCommand_def ExitCode_def retry_world_def)
qed

subsection \<open>Capturing the output\<close>

lemma Peek_NewReaderSize:
  "Peek (NewReaderSize (data, rerr) B) B =
     (if B < 0 then ([], Some ErrNegativeCount)
      else if length data < nat B
      then (data, Some (case rerr of None \<Rightarrow> EOF | Some e \<Rightarrow> e))
      else (take (nat B) data, None))"
  by (simp add: Peek_def NewReaderSize_def Let_def)

lemma oneRun_small:
  assumes "int (length (captured cb ch)) < B" and "ch = children w (attempts w)"
  shows "tmp (fst (oneRun B cmd cb env w)) = None"
  using assms
  by (auto simp: oneRun_def Let_def Peek_NewReaderSize captured_def newCommand_def
           split: option.splits prod.splits)

lemma oneRun_small_reader:
  assumes "int (length (captured cb ch)) < B" and "ch = children w (attempts w)"
    and "pipe_err ch = None" and "start_err ch = None" and "cb = None \<longrightarrow> read_err ch = None"
  shows "Reader (fst (oneRun B cmd cb env w)) = Some (captured cb ch)"
  using assms
  by (auto simp: oneRun_def Let_def Peek_NewReaderSize captured_def newCommand_def
           split: option.splits prod.splits)

lemma oneRun_large:
  assumes "0 \<le> B" and "B \<le> int (length (captured cb ch))" and "ch = children w (attempts w)"
    and "pipe_err ch = None" and "start_err ch = None" and "tmpfile_err ch = None"
  shows "tmp (fst (oneRun B cmd cb env w)) = Some (created (wfs w))
         \<and> created (wfs w) \<in> disk (wfs (snd (oneRun B cmd cb env w)))"
  using assms
  by (auto simp: oneRun_def Let_def Peek_NewReaderSize captured_def newCommand_def TempFile_def
           split: option.splits prod.splits)

text \<open>
  C4, as amended. An output shorter than \<open>BufferSize\<close> is captured in memory: the result has
  no temp file, and when the pipe opened, the child started and the stream ended regularly
  its reader serves exactly the bytes read. An output of \<open>BufferSize\<close> bytes or more goes
  to a temp file (when the pipe opened, the child started and the file could be created), so
  only outputs of at least \<open>BufferSize\<close> bytes use one.
\<close>

theorem oneRun_capture_path:
  "(int (length (captured cb (children w (attempts w)))) < B \<longrightarrow>
       tmp (fst (oneRun B cmd cb env w)) = None)
   \<and> (int (length (captured cb (children w (attempts w)))) < B
        \<and> pipe_err (children w (attempts w)) = None \<and> start_err (children w (attempts w)) = None
        \<and> read_err (children w (attempts w)) = None \<longrightarrow>
       Reader (fst (oneRun B cmd cb env w)) = Some (captured cb (children w (attempts w))))
   \<and> (0 \<le> B \<and> B \<le> int (length (captured cb (children w (attempts w))))
        \<and> pipe_err (children w (attempts w)) = None \<and> start_err (children w (attempts w)) = None
        \<and> tmpfile_err (children w (attempts w)) = None \<longrightarrow>
       tmp (fst (oneRun B cmd cb env w)) = Some (created (wfs w))
       \<and> created (wfs w) \<in> disk (wfs (snd (oneRun B cmd cb env w))))
   \<and> (tmp (fst (oneRun B cmd cb env w)) \<noteq> None \<longrightarrow>
        B \<le> int (length (captured cb (children w (attempts w)))))"
proof (intro conjI impI)
  assume "int (length (captured cb (children w (attempts w)))) < B"
  then show "tmp (fst (oneRun B cmd cb env w)) = None"
    by (rule oneRun_small) simp
next
  assume "int (length (captured cb (children w (attempts w)))) < B
        \<and> pipe_err (children w (attempts w)) = None \<and> start_err (children w (attempts w)) = None
        \<and> read_err (children w (attempts w)) = None"
  then show "Reader (fst (oneRun B cmd cb env w)) = Some (captured cb (children w (attempts w)))"
    by (intro oneRun_small_reader) simp_all
next
  assume a: "0 \<le> B \<and> B \<le> int (length (captured cb (children w (attempts w))))
        \<and> pipe_err (children w (attempts w)) = None \<and> start_err (children w (attempts w)) = None
        \<and> tmpfile_err (children w (attempts w)) = None"
  have "tmp (fst (oneRun B cmd cb env w)) = Some (created (wfs w))
       \<and> created (wfs w) \<in> disk (wfs (snd (oneRun B cmd cb env w)))"
    using a by (intro oneRun_large [of B cb "children w (attempts w)"]) simp_all
  then show "tmp (fst (oneRun B cmd cb env w)) = Some (created (wfs w))"
    and "created (wfs w) \<in> disk (wfs (snd (oneRun B cmd cb env w)))"
    by simp_all
next
  assume t: "tmp (fst (oneRun B cmd cb env w)) \<noteq> None"
  show "B \<le> int (length (captured cb (children w (attempts w))))"
  proof (rule ccontr)
    assume "\<not> B \<le> int (length (captured cb (children w (attempts w))))"
    then have "int (length (captured cb (children w (attempts w)))) < B" by simp
    then have "tmp (fst (oneRun B cmd cb env w)) = None"
      by (rule oneRun_small) simp
    with t show False by simp
  qed
qed

theorem oneRun_capture_path_witness:
  "tmp (fst (oneRun 4 ''cmd'' None [] (world_of (child_ok ''abc'')))) = None
   \<and> Reader (fst (oneRun 4 ''cmd'' None [] (world_of (child_ok ''abc'')))) = Some ''abc''
   \<and> tmp (fst (oneRun 4 ''cmd'' None [] (world_of (child_ok ''abcd'')))) = Some 0
   \<and> 0 \<in> disk (wfs (snd (oneRun 4 ''cmd'' None [] (world_of (child_ok ''abcd'')))))"
  using oneRun_capture_path [of None "world_of (child_ok ''abc'')" 4 "''cmd''" "[]"]
        oneRun_capture_path [of None "world_of (child_ok ''abcd'')" 4 "''cmd''" "[]"]
  by (simp add: captured_def world_of_def child_ok_def fs_empty_def)

text \<open>
  C4 as stated fails at the boundary: an output of exactly \<open>BufferSize\<close> bytes is backed by
  a temp file.
\<close>

theorem oneRun_capture_path_counterexample:
  "int (length (stdout (child_ok (replicate 1048576 CHR ''a'')))) \<le> BufferSize
   \<and> tmp (fst (oneRun BufferSize ''cmd'' None [] (world_of (child_ok (replicate 1048576 CHR ''a''))))) = Some 0"
  by (simp add: BufferSize_def child_ok_def world_of_def fs_empty_def oneRun_def Let_def
        Peek_NewReaderSize TempFile_def newCommand_def)

subsection \<open>A failing callback\<close>

lemma oneRun_callback_err:
  assumes "ch = children w (attempts w)" and "f (stdout ch) = (ob, Some e)" and "0 \<le> B"
    and "pipe_err ch = None" and "start_err ch = None" and "wait_err ch = None"
    and "tmpfile_err ch = None" and "write_err ch = None" and "seek_err ch = None"
  shows "Err (fst (oneRun B cmd (Some f) env w)) = Some e"
  using assms
  by (auto simp: oneRun_def Let_def Peek_NewReaderSize newCommand_def TempFile_def
        callback_err_def split: option.splits prod.splits)

text \<open>
  C5, as amended. When the child exits successfully and the callback fails, the result's
  \<open>Err\<close> is the callback's error, and the exit code reported is the one \<open>ExitCode\<close> derives
  from that error: its exit status when it is an exit error with a wait status, and
  \<open>UnknownExit\<close> otherwise.
\<close>

theorem callback_error_exit_code:
  "f (stdout (children w (attempts w))) = (ob, Some e) \<and> 0 \<le> B
   \<and> pipe_err (children w (attempts w)) = None \<and> start_err (children w (attempts w)) = None
   \<and> wait_err (children w (attempts w)) = None
   \<and> tmpfile_err (children w (attempts w)) = None \<and> write_err (children w (attempts w)) = None
   \<and> seek_err (children w (attempts w)) = None
   \<longrightarrow> Err (fst (oneRun B cmd (Some f) env w)) = Some e
     \<and> ExitCode (fst (oneRun B cmd (Some f) env w)) =
         (case e of ExitError (Some st) \<Rightarrow> st | _ \<Rightarrow> UnknownExit)"
  using oneRun_callback_err [of "children w (attempts w)" w f ob e B cmd env]
  by (auto simp: ExitCode_def)

theorem callback_error_exit_code_witness:
  "Err (fst (oneRun 4 ''cmd'' (Some failing_cb) [] (world_of (child_ok ''out''))))
        = Some (OtherError ''callback failed'')
   \<and> ExitCode (fst (oneRun 4 ''cmd'' (Some failing_cb) [] (world_of (child_ok ''out'')))) = UnknownExit"
  using callback_error_exit_code [of failing_cb "world_of (child_ok ''out'')" "''out''"
           "OtherError ''callback failed''" 4 "''cmd''" "[]"]
  by (simp add: failing_cb_def world_of_def child_ok_def)

text \<open>
  C5 as stated fails: the child exits with status 0, the callback fails, and the result
  reports exit code 1.
\<close>

theorem callback_error_exit_code_counterexample:
  "wait_err (child_ok ''out'') = None
   \<and> Err (fst (oneRun BufferSize ''cmd'' (Some failing_cb) [] (world_of (child_ok ''out''))))
        = Some (OtherError ''callback failed'')
   \<and> ExitCode (fst (oneRun BufferSize ''cmd'' (Some failing_cb) [] (world_of (child_ok ''out'')))) = 1"
  by (simp add: BufferSize_def child_ok_def world_of_def fs_empty_def oneRun_def Let_def failing_cb_def
        Peek_NewReaderSize callback_err_def newCommand_def ExitCode_def UnknownExit_def)

subsection \<open>The record scanner\<close>

text \<open>
  C7 at \<open>RS = "ab"\<close> and input \<open>"xaby"\<close>: the scanner emits \<open>"xab"\<close> and \<open>"by"\<close>. The
  token includes the separator but the advance is one byte past its start, so the
  separator's second byte is emitted again and the records do not concatenate to the input.
\<close>

theorem scanner_multibyte_separator:
  "scan_all ''ab'' [] [''xaby''] False = [''xab'', ''by'']
   \<and> concat (scan_all ''ab'' [] [''xaby''] False) = ''xabby''"
  by (simp add: scan_all.simps split_rs_def Let_def)

theorem scanner_multibyte_separator_witness:
  "concat (scan_all ''ab'' [] [''xaby''] False) \<noteq> concat [''xaby'']"
  using scanner_multibyte_separator by simp

text \<open>With a separator of one byte the records do concatenate to the input.\<close>

lemma Index_bound: "0 \<le> Index data sep \<Longrightarrow> nat (Index data sep) + length sep \<le> length data"
proof (induction data)
  case Nil
  then show ?case by (simp split: if_splits)
next
  case (Cons x xs)
  show ?case
  proof (cases "prefix sep (x # xs)")
    case True
    then show ?thesis using prefix_length_le by fastforce
  next
    case False
    with Cons.prems have "0 \<le> Index xs sep"
      by (simp add: Let_def split: if_splits)
    with Cons.IH False show ?thesis
      by (simp add: Let_def nat_add_distrib)
  qed
qed

lemma split_rs_token:
  assumes "split_rs brs buf eof = (adv, Some tok)" and "brs \<noteq> []"
  shows "1 \<le> adv \<and> adv \<le> int (length buf)
     \<and> (length brs = 1 \<longrightarrow> tok = take (nat adv) buf)"
proof (cases "0 \<le> Index buf brs")
  case True
  from Index_bound [OF True] assms(2) have "nat (Index buf brs) + 1 \<le> length buf"
    by (cases brs) auto
  with True assms show ?thesis
    by (auto simp: split_rs_def Let_def nat_add_distrib split: if_splits)
next
  case False
  with assms show ?thesis
    by (cases buf) (auto simp: split_rs_def Let_def split: if_splits)
qed

lemma scan_all_single_byte:
  "eof \<longrightarrow> chunks = [] \<Longrightarrow> length brs = 1 \<Longrightarrow>
     concat (scan_all brs buf chunks eof) = buf @ concat chunks"
proof (induction brs buf chunks eof rule: scan_all.induct)
  case (1 brs buf chunks eof)
  have ne: "brs \<noteq> []" using "1.prems"(2) by auto
  show ?case
  proof (cases "(buf \<noteq> [] \<or> eof) \<and> snd (split_rs brs buf eof) \<noteq> None")
    case True
    then obtain adv tok where sp: "split_rs brs buf eof = (adv, Some tok)"
      by (cases "split_rs brs buf eof") auto
    from split_rs_token [OF sp ne] "1.prems"(2)
    have a: "1 \<le> adv" "adv \<le> int (length buf)" "tok = take (nat adv) buf" by simp_all
    have g: "\<not> (fst (split_rs brs buf eof) \<le> 0 \<or> fst (split_rs brs buf eof) > int (length buf))"
      using a sp by simp
    have "concat (scan_all brs (drop (nat (fst (split_rs brs buf eof))) buf) chunks eof)
        = drop (nat (fst (split_rs brs buf eof))) buf @ concat chunks"
      using "1.IH"(1) [OF True g] "1.prems" by simp
    then show ?thesis
      using True g sp a by (subst scan_all.simps) simp
  next
    case False
    show ?thesis
    proof (cases eof)
      case True
      with False "1.prems"(1) have "buf = []"
        by (auto simp: split_rs_def Let_def split: if_splits)
      with True False "1.prems"(1) show ?thesis
        by (subst scan_all.simps) auto
    next
      case neof: False
      show ?thesis
      proof (cases chunks)
        case Nil
        have "scan_all brs buf chunks eof = scan_all brs buf [] True"
          using False neof Nil by (subst scan_all.simps) auto
        with "1.IH"(2) [OF False neof Nil] "1.prems"(2) Nil show ?thesis
          by simp
      next
        case (Cons c cs)
        have "scan_all brs buf chunks eof = scan_all brs (buf @ c) cs False"
          using False neof Cons by (subst scan_all.simps) auto
        with "1.IH"(3) [OF False neof Cons] "1.prems"(2) Cons show ?thesis
          by simp
      qed
    qed
  qed
qed

subsection \<open>Cancelling the unordered runner\<close>

text \<open>
  C6 with one worker and the commands \<open>a\<close>, \<open>b\<close>: after the worker has taken the
  \<open><-cancel\<close> case it starts the child of \<open>b\<close>; when that child has finished, either
  case of the \<open>select\<close> panics (a send on, or a second close of, the closed channel). With
  the single command \<open>a\<close>, the worker leaves its loop and the closing goroutine panics.
\<close>

theorem Runner_cancel_starts_child:
  "map_option events
      (run_schedule (Runner_step 1 echo) sched_cancel (pool_init 1 [''a'', ''b'']))
     = Some [Started 0 0, Observed 0, Started 0 1]
   \<and> map_option panicked
      (run_schedule (Runner_step 1 echo) (sched_cancel @ [Finish 0, ObserveCancel 0])
         (pool_init 1 [''a'', ''b''])) = Some True
   \<and> map_option panicked
      (run_schedule (Runner_step 1 echo) (sched_cancel @ [Finish 0, Send 0])
         (pool_init 1 [''a'', ''b''])) = Some True
   \<and> map_option panicked
      (run_schedule (Runner_step 1 echo)
         [EnumRecv, Hand 0, Finish 0, Cancel, ObserveCancel 0, EnumClose, Leave 0, CloseOut]
         (pool_init 1 [''a''])) = Some True"
  by (simp add: sched_cancel_def Runner_step_def enum_recv_def enum_close_def hand_def finish_def
        send_def observe_cancel_def leave_def close_out_def consume_def cancel_def
        pool_init_def)

theorem Runner_cancel_starts_child_witness:
  "\<exists>s. run_schedule (Runner_step 1 echo) sched_cancel (pool_init 1 [''a'', ''b'']) = Some s
       \<and> events s = [Started 0 0, Observed 0, Started 0 1]"
  using Runner_cancel_starts_child by auto

subsection \<open>Invariants of the ordered runner\<close>

lemma oRunner_stepE [consumes 1, case_names recv push_buf push_direct close hand finish leave
    drain_recv drain_get drain_send drain_drop drain_close consume cancel]:
  assumes "oRunner_step P W exec a s = Some s'"
  obtains
    (recv) c cs where "enum s = Recv" "todo s = c # cs" "s' = s\<lparr>todo := cs, enum := PushCh c\<rparr>"
  | (push_buf) c where "enum s = PushCh c" "length (istdout s) < W * P"
      "s' = s\<lparr>istdout := istdout s @ [next_i s], enum := Offer c\<rparr>"
  | (push_direct) c where "enum s = PushCh c" "istdout s = []" "coord s = DRange"
      "s' = s\<lparr>coord := DRecv (next_i s), enum := Offer c\<rparr>"
  | (close) "enum s = Recv" "todo s = []" "s' = s\<lparr>enum := Closed\<rparr>"
  | (hand) w c where "enum s = Offer c" "w < length (workers s)" "workers s ! w = Idle"
      "s' = s\<lparr>workers := (workers s)[w := Running (next_i s) c],
               next_i := next_i s + 1, enum := Recv,
               events := events s @ [Started w (next_i s)]\<rparr>"
  | (finish) w i c where "w < length (workers s)" "workers s ! w = Running i c"
      "s' = s\<lparr>workers := (workers s)[w := Publish i (exec i c)]\<rparr>"
  | (leave) w where "w < length (workers s)" "workers s ! w = Idle" "enum s = Closed"
      "s' = s\<lparr>workers := (workers s)[w := Exited]\<rparr>"
  | (drain_recv) i q where "coord s = DRange" "istdout s = i # q"
      "s' = s\<lparr>istdout := q, coord := DRecv i\<rparr>"
  | (drain_get) w i r where "w < length (workers s)" "workers s ! w = Publish i r"
      "coord s = DRecv i" "s' = s\<lparr>coord := DSelect i r, workers := (workers s)[w := Idle]\<rparr>"
  | (drain_send) i r where "coord s = DSelect i r" "length (chan s) < P"
      "s' = s\<lparr>chan := chan s @ [(i, r)], coord := DRange\<rparr>"
  | (drain_drop) i r where "coord s = DSelect i r" "cancelled s" "s' = s\<lparr>coord := DRange\<rparr>"
  | (drain_close) "coord s = DRange" "istdout s = []" "enum s = Closed"
      "s' = s\<lparr>coord := DClosed, chan_closed := True\<rparr>"
  | (consume) x xs where "chan s = x # xs" "s' = s\<lparr>chan := xs, delivered := delivered s @ [x]\<rparr>"
  | (cancel) "\<not> cancelled s" "s' = s\<lparr>cancelled := True\<rparr>"
proof -
  have np: "\<not> panicked s"
    using assms by (auto simp: oRunner_step_def split: if_splits)
  show thesis
  proof (cases a)
    case EnumRecv
    with assms np have "enum_recv True s = Some s'" by (simp add: oRunner_step_def)
    then obtain c cs where "enum s = Recv" "todo s = c # cs" "s' = s\<lparr>todo := cs, enum := PushCh c\<rparr>"
      by (auto simp: enum_recv_def split: enum_pc.splits list.splits)
    then show ?thesis by (rule recv)
  next
    case EnumPush
    with assms np have e: "enum_push (W * P) s = Some s'" by (simp add: oRunner_step_def)
    then obtain c where c: "enum s = PushCh c"
      by (auto simp: enum_push_def split: enum_pc.splits)
    show ?thesis
    proof (cases "length (istdout s) < W * P")
      case True
      with e c have "s' = s\<lparr>istdout := istdout s @ [next_i s], enum := Offer c\<rparr>"
        by (simp add: enum_push_def)
      with c True show ?thesis by (intro push_buf)
    next
      case False
      with e c have "istdout s = []" "coord s = DRange"
        "s' = s\<lparr>coord := DRecv (next_i s), enum := Offer c\<rparr>"
        by (simp_all add: enum_push_def split: if_splits)
      with c show ?thesis by (intro push_direct)
    qed
  next
    case EnumClose
    with assms np have "enum_close s = Some s'" by (simp add: oRunner_step_def)
    then have "enum s = Recv" "todo s = []" "s' = s\<lparr>enum := Closed\<rparr>"
      by (simp_all add: enum_close_def split: if_splits)
    then show ?thesis by (rule close)
  next
    case (Hand w)
    with assms np have "hand w s = Some s'" by (simp add: oRunner_step_def)
    then obtain c where "enum s = Offer c" "w < length (workers s)" "workers s ! w = Idle"
      "s' = s\<lparr>workers := (workers s)[w := Running (next_i s) c],
               next_i := next_i s + 1, enum := Recv,
               events := events s @ [Started w (next_i s)]\<rparr>"
      by (auto simp: hand_def split: enum_pc.splits if_splits)
    then show ?thesis by (rule hand)
  next
    case (Finish w)
    with assms np have "finish exec w s = Some s'" by (simp add: oRunner_step_def)
    then obtain i c where "w < length (workers s)" "workers s ! w = Running i c"
      "s' = s\<lparr>workers := (workers s)[w := Publish i (exec i c)]\<rparr>"
      by (auto simp: finish_def split: worker.splits if_splits)
    then show ?thesis by (rule finish)
  next
    case (Leave w)
    with assms np have "leave w s = Some s'" by (simp add: oRunner_step_def)
    then have "w < length (workers s)" "workers s ! w = Idle" "enum s = Closed"
      "s' = s\<lparr>workers := (workers s)[w := Exited]\<rparr>"
      by (simp_all add: leave_def split: if_splits)
    then show ?thesis by (rule leave)
  next
    case DrainRecv
    with assms np have "drain_recv s = Some s'" by (simp add: oRunner_step_def)
    then obtain i q where "coord s = DRange" "istdout s = i # q"
      "s' = s\<lparr>istdout := q, coord := DRecv i\<rparr>"
      by (auto simp: drain_recv_def split: coord_pc.splits list.splits)
    then show ?thesis by (rule drain_recv)
  next
    case (DrainGet w)
    with assms np have "drain_get w s = Some s'" by (simp add: oRunner_step_def)
    then obtain i r where "w < length (workers s)" "workers s ! w = Publish i r"
      "coord s = DRecv i" "s' = s\<lparr>coord := DSelect i r, workers := (workers s)[w := Idle]\<rparr>"
      by (auto simp: drain_get_def split: worker.splits if_splits)
    then show ?thesis by (rule drain_get)
  next
    case DrainSend
    with assms np have "drain_send P s = Some s'" by (simp add: oRunner_step_def)
    then obtain i r where "coord s = DSelect i r" "length (chan s) < P"
      "s' = s\<lparr>chan := chan s @ [(i, r)], coord := DRange\<rparr>"
      by (auto simp: drain_send_def split: coord_pc.splits if_splits)
    then show ?thesis by (rule drain_send)
  next
    case DrainDrop
    with assms np have "drain_drop s = Some s'" by (simp add: oRunner_step_def)
    then obtain i r where "coord s = DSelect i r" "cancelled s" "s' = s\<lparr>coord := DRange\<rparr>"
      by (auto simp: drain_drop_def split: coord_pc.splits if_splits)
    then show ?thesis by (rule drain_drop)
  next
    case DrainClose
    with assms np have "drain_close s = Some s'" by (simp add: oRunner_step_def)
    then have "coord s = DRange" "istdout s = []" "enum s = Closed"
      "s' = s\<lparr>coord := DClosed, chan_closed := True\<rparr>"
      by (simp_all add: drain_close_def split: if_splits)
    then show ?thesis by (rule drain_close)
  next
    case Consume
    with assms np have "consume s = Some s'" by (simp add: oRunner_step_def)
    then obtain x xs where "chan s = x # xs" "s' = s\<lparr>chan := xs, delivered := delivered s @ [x]\<rparr>"
      by (auto simp: consume_def split: list.splits)
    then show ?thesis by (rule consume)
  next
    case Cancel
    with assms np have "cancel s = Some s'" by (simp add: oRunner_step_def)
    then have "\<not> cancelled s" "s' = s\<lparr>cancelled := True\<rparr>"
      by (simp_all add: cancel_def split: if_splits)
    then show ?thesis by (rule cancel)
  next
    case (Send w)
    with assms np show ?thesis by (simp add: oRunner_step_def)
  next
    case (ObserveCancel w)
    with assms np show ?thesis by (simp add: oRunner_step_def)
  next
    case CloseOut
    with assms np show ?thesis by (simp add: oRunner_step_def)
  qed
qed

lemma drop_eq_Cons_nth:
  "drop n xs = c # cs \<Longrightarrow> n < length xs \<and> xs ! n = c \<and> drop (Suc n) xs = cs"
  by (metis Cons_nth_drop_Suc drop_all leI list.distinct(1) list.inject)

lemma ordered_upto_snoc: "ordered_upto c n xs \<Longrightarrow> ordered_upto c (Suc n) (xs @ [n])"
  by (auto simp: ordered_upto_def sorted_wrt_append less_Suc_eq)

lemma ordered_upto_drop: "ordered_upto True n (xs @ [i] @ ys) \<Longrightarrow> ordered_upto True n (xs @ ys)"
  by (auto simp: ordered_upto_def sorted_wrt_append)

lemma ordered_upto_cancel: "ordered_upto c n xs \<Longrightarrow> ordered_upto True n xs"
  by (simp add: ordered_upto_def)

lemma order_inv_step:
  assumes "oRunner_step P W exec a s = Some s'" and "order_inv s"
  shows "order_inv s'"
  using assms(1)
proof (cases rule: oRunner_stepE)
  case (push_buf c)
  then have "pipeline s' = pipeline s @ [pushed s]" "pushed s' = Suc (pushed s)"
    "cancelled s' = cancelled s"
    by (simp_all add: pipeline_def pushed_def enum_pushed_def)
  with assms(2) show ?thesis
    by (simp add: order_inv_def ordered_upto_snoc)
next
  case (push_direct c)
  then have "pipeline s' = pipeline s @ [pushed s]" "pushed s' = Suc (pushed s)"
    "cancelled s' = cancelled s"
    by (simp_all add: pipeline_def pushed_def enum_pushed_def coord_idx_def)
  with assms(2) show ?thesis
    by (simp add: order_inv_def ordered_upto_snoc)
next
  case (drain_drop i r)
  then have "pipeline s = (map fst (delivered s) @ map fst (chan s)) @ [i] @ istdout s"
    "pipeline s' = (map fst (delivered s) @ map fst (chan s)) @ istdout s"
    "pushed s' = pushed s" "cancelled s'" "cancelled s"
    by (simp_all add: pipeline_def pushed_def coord_idx_def)
  with assms(2) show ?thesis
    using ordered_upto_drop [of "pushed s" "map fst (delivered s) @ map fst (chan s)" i "istdout s"]
    by (simp add: order_inv_def)
next
  case cancel
  then have "pipeline s' = pipeline s" "pushed s' = pushed s" "cancelled s'"
    by (simp_all add: pipeline_def pushed_def)
  with assms(2) show ?thesis
    using ordered_upto_cancel by (simp add: order_inv_def)
next
  case (hand w c)
  then have "pipeline s' = pipeline s" "pushed s' = pushed s" "cancelled s' = cancelled s"
    by (simp_all add: pipeline_def pushed_def enum_pushed_def)
  with assms(2) show ?thesis by (simp add: order_inv_def)
next
  case (drain_recv i q)
  then have "pipeline s' = pipeline s" "pushed s' = pushed s" "cancelled s' = cancelled s"
    by (simp_all add: pipeline_def pushed_def coord_idx_def)
  with assms(2) show ?thesis by (simp add: order_inv_def)
next
  case (drain_get w i r)
  then have "pipeline s' = pipeline s" "pushed s' = pushed s" "cancelled s' = cancelled s"
    by (simp_all add: pipeline_def pushed_def coord_idx_def)
  with assms(2) show ?thesis by (simp add: order_inv_def)
next
  case (drain_send i r)
  then have "pipeline s' = pipeline s" "pushed s' = pushed s" "cancelled s' = cancelled s"
    by (simp_all add: pipeline_def pushed_def coord_idx_def)
  with assms(2) show ?thesis by (simp add: order_inv_def)
next
  case drain_close
  then have "pipeline s' = pipeline s" "pushed s' = pushed s" "cancelled s' = cancelled s"
    by (simp_all add: pipeline_def pushed_def coord_idx_def)
  with assms(2) show ?thesis by (simp add: order_inv_def)
next
  case (consume x xs)
  then have "pipeline s' = pipeline s" "pushed s' = pushed s" "cancelled s' = cancelled s"
    by (simp_all add: pipeline_def pushed_def)
  with assms(2) show ?thesis by (simp add: order_inv_def)
next
  case (recv c cs)
  then have "pipeline s' = pipeline s" "pushed s' = pushed s" "cancelled s' = cancelled s"
    by (simp_all add: pipeline_def pushed_def enum_pushed_def)
  with assms(2) show ?thesis by (simp add: order_inv_def)
next
  case close
  then have "pipeline s' = pipeline s" "pushed s' = pushed s" "cancelled s' = cancelled s"
    by (simp_all add: pipeline_def pushed_def enum_pushed_def)
  with assms(2) show ?thesis by (simp add: order_inv_def)
next
  case (finish w i c)
  then have "pipeline s' = pipeline s" "pushed s' = pushed s" "cancelled s' = cancelled s"
    by (simp_all add: pipeline_def pushed_def)
  with assms(2) show ?thesis by (simp add: order_inv_def)
next
  case (leave w)
  then have "pipeline s' = pipeline s" "pushed s' = pushed s" "cancelled s' = cancelled s"
    by (simp_all add: pipeline_def pushed_def)
  with assms(2) show ?thesis by (simp add: order_inv_def)
qed

lemma source_inv_step:
  assumes "oRunner_step P W exec a s = Some s'" and "source_inv cmds s"
  shows "source_inv cmds s'"
  using assms(1)
proof (cases rule: oRunner_stepE)
  case (recv c cs)
  with assms(2) have "drop (next_i s) cmds = c # cs"
    by (simp add: source_inv_def enum_taken_def)
  from drop_eq_Cons_nth [OF this] recv assms(2) show ?thesis
    by (simp add: source_inv_def enum_taken_def enum_ok_def)
qed (use assms(2) in \<open>auto simp: source_inv_def enum_taken_def enum_ok_def\<close>)

lemma worker_ok_mono: "worker_ok exec cmds n w \<Longrightarrow> n \<le> m \<Longrightarrow> worker_ok exec cmds m w"
  by (auto simp: worker_ok_def split: worker.splits)

lemma workers_update:
  "\<forall>w \<in> set ws. Q w \<Longrightarrow> Q x \<Longrightarrow> \<forall>w \<in> set (ws[k := x]). Q w"
  using set_update_subset_insert by fastforce

lemma result_inv_step:
  assumes "oRunner_step P W exec a s = Some s'" and "result_inv exec cmds s"
    and "source_inv cmds s"
  shows "result_inv exec cmds s'"
  using assms(1)
proof (cases rule: oRunner_stepE)
  case (hand w c)
  have "\<forall>x\<in>set (workers s). worker_ok exec cmds (next_i s + 1) x"
    using assms(2) worker_ok_mono by (fastforce simp: result_inv_def)
  moreover have "worker_ok exec cmds (next_i s + 1) (Running (next_i s) c)"
    using assms(3) hand by (simp add: source_inv_def worker_ok_def enum_ok_def)
  ultimately have "\<forall>x \<in> set ((workers s)[w := Running (next_i s) c]).
      worker_ok exec cmds (next_i s + 1) x"
    by (rule workers_update)
  with assms(2) hand show ?thesis
    by (simp add: result_inv_def)
next
  case (finish w i c)
  then have "worker_ok exec cmds (next_i s) (Running i c)"
    using assms(2) by (metis nth_mem result_inv_def)
  then have "worker_ok exec cmds (next_i s) (Publish i (exec i c))"
    by (simp add: worker_ok_def)
  then have "\<forall>x \<in> set ((workers s)[w := Publish i (exec i c)]). worker_ok exec cmds (next_i s) x"
    using assms(2) by (intro workers_update) (simp_all add: result_inv_def)
  with assms(2) finish show ?thesis
    by (simp add: result_inv_def)
next
  case (leave w)
  have "\<forall>x \<in> set ((workers s)[w := Exited]). worker_ok exec cmds (next_i s) x"
    using assms(2) by (intro workers_update) (simp_all add: result_inv_def worker_ok_def)
  with assms(2) leave show ?thesis
    by (simp add: result_inv_def)
next
  case (drain_get w i r)
  then have "worker_ok exec cmds (next_i s) (Publish i r)"
    using assms(2) by (metis nth_mem result_inv_def)
  then have r: "r = exec i (cmds ! i)"
    by (simp add: worker_ok_def)
  have "\<forall>x \<in> set ((workers s)[w := Idle]). worker_ok exec cmds (next_i s) x"
    using assms(2) by (intro workers_update) (simp_all add: result_inv_def worker_ok_def)
  with assms(2) drain_get r show ?thesis
    by (simp add: result_inv_def coord_ok_def)
next
  case (drain_send i r)
  with assms(2) show ?thesis
    by (auto simp: result_inv_def coord_ok_def results_ok_def)
next
  case (consume x xs)
  with assms(2) show ?thesis
    by (auto simp: result_inv_def results_ok_def)
qed (use assms(2) in \<open>auto simp: result_inv_def coord_ok_def\<close>)

lemma capacity_inv_step:
  assumes "oRunner_step P W exec a s = Some s'" and "capacity_inv P W s"
  shows "capacity_inv P W s'"
  using assms(1)
  by (cases rule: oRunner_stepE) (use assms(2) in \<open>auto simp: capacity_inv_def\<close>)

lemma holds_simps [simp]:
  "holds Idle i = False" "holds Exited i = False"
  "holds (Running j c) i = (j = i)" "holds (Publish j r) i = (j = i)"
  by (simp_all add: holds_def)

lemma slot_inv_init: "slot_inv P (pool_init P cmds)"
  by (simp add: slot_inv_def pool_init_def)

lemma slot_invI:
  assumes "length (workers s) = P"
    and "\<And>w i. w < length (workers s) \<Longrightarrow> holds (workers s ! w) i \<Longrightarrow>
            i < next_i s \<and> (i \<in> set (istdout s) \<or> coord s = DRecv i)"
    and "\<And>w1 w2 i. w1 < length (workers s) \<Longrightarrow> w2 < length (workers s) \<Longrightarrow>
            holds (workers s ! w1) i \<Longrightarrow> holds (workers s ! w2) i \<Longrightarrow> w1 = w2"
    and "\<And>c. enum s = Offer c \<Longrightarrow> next_i s \<in> set (istdout s) \<or> coord s = DRecv (next_i s)"
  shows "slot_inv P s"
  unfolding slot_inv_def using assms by blast

lemma slot_inv_len: "slot_inv P s \<Longrightarrow> length (workers s) = P"
  by (simp add: slot_inv_def)

lemma slot_inv_held:
  "slot_inv P s \<Longrightarrow> w < length (workers s) \<Longrightarrow> holds (workers s ! w) i \<Longrightarrow>
     i < next_i s \<and> (i \<in> set (istdout s) \<or> coord s = DRecv i)"
  unfolding slot_inv_def by blast

lemma slot_inv_distinct:
  "slot_inv P s \<Longrightarrow> w1 < length (workers s) \<Longrightarrow> w2 < length (workers s) \<Longrightarrow>
     holds (workers s ! w1) i \<Longrightarrow> holds (workers s ! w2) i \<Longrightarrow> w1 = w2"
  unfolding slot_inv_def by blast

lemma slot_inv_offer:
  "slot_inv P s \<Longrightarrow> enum s = Offer c \<Longrightarrow>
     next_i s \<in> set (istdout s) \<or> coord s = DRecv (next_i s)"
  unfolding slot_inv_def by blast

text \<open>A step that changes neither what the workers hold nor the queue side.\<close>

lemma slot_inv_same:
  assumes "slot_inv P s" and "length (workers s') = length (workers s)"
    and "\<And>w i. w < length (workers s) \<Longrightarrow> holds (workers s' ! w) i = holds (workers s ! w) i"
    and "next_i s' = next_i s" and "istdout s' = istdout s" and "coord s' = coord s"
    and "\<And>c. enum s' = Offer c \<Longrightarrow> enum s = Offer c"
  shows "slot_inv P s'"
proof (rule slot_invI)
  show "length (workers s') = P" using assms(1,2) by (simp add: slot_inv_len)
next
  fix w i assume "w < length (workers s')" "holds (workers s' ! w) i"
  then show "i < next_i s' \<and> (i \<in> set (istdout s') \<or> coord s' = DRecv i)"
    using slot_inv_held [OF assms(1), of w i] assms(2-6) by simp
next
  fix w1 w2 i
  assume "w1 < length (workers s')" "w2 < length (workers s')"
    "holds (workers s' ! w1) i" "holds (workers s' ! w2) i"
  then show "w1 = w2"
    using slot_inv_distinct [OF assms(1), of w1 w2 i] assms(2,3) by simp
next
  fix c assume "enum s' = Offer c"
  then show "next_i s' \<in> set (istdout s') \<or> coord s' = DRecv (next_i s')"
    using slot_inv_offer [OF assms(1)] assms(4-7) by simp
qed

lemma slot_inv_step:
  assumes "oRunner_step P W exec a s = Some s'" and inv: "slot_inv P s"
  shows "slot_inv P s'"
  using assms(1)
proof (cases rule: oRunner_stepE)
  case (recv c cs)
  with inv show ?thesis by (intro slot_inv_same [OF inv]) simp_all
next
  case close
  with inv show ?thesis by (intro slot_inv_same [OF inv]) simp_all
next
  case (consume x xs)
  with inv show ?thesis by (intro slot_inv_same [OF inv]) simp_all
next
  case cancel
  with inv show ?thesis by (intro slot_inv_same [OF inv]) simp_all
next
  case (finish w i c)
  have "holds ((workers s)[w := Publish i (exec i c)] ! w') j = holds (workers s ! w') j"
    if "w' < length (workers s)" for w' j
    using that finish(2) by (cases "w' = w") simp_all
  with finish show ?thesis by (intro slot_inv_same [OF inv]) simp_all
next
  case (leave w)
  have "holds ((workers s)[w := Exited] ! w') j = holds (workers s ! w') j"
    if "w' < length (workers s)" for w' j
    using that leave(2) by (cases "w' = w") simp_all
  with leave show ?thesis by (intro slot_inv_same [OF inv]) simp_all
next
  case (push_buf c)
  show ?thesis
  proof (rule slot_invI)
    show "length (workers s') = P" using push_buf inv by (simp add: slot_inv_len)
  next
    fix w i assume "w < length (workers s')" "holds (workers s' ! w) i"
    then show "i < next_i s' \<and> (i \<in> set (istdout s') \<or> coord s' = DRecv i)"
      using slot_inv_held [OF inv, of w i] push_buf by auto
  next
    fix w1 w2 i
    assume "w1 < length (workers s')" "w2 < length (workers s')"
      "holds (workers s' ! w1) i" "holds (workers s' ! w2) i"
    then show "w1 = w2"
      using slot_inv_distinct [OF inv, of w1 w2 i] push_buf by simp
  next
    fix c' assume "enum s' = Offer c'"
    show "next_i s' \<in> set (istdout s') \<or> coord s' = DRecv (next_i s')"
      using push_buf by simp
  qed
next
  case (push_direct c)
  show ?thesis
  proof (rule slot_invI)
    show "length (workers s') = P" using push_direct inv by (simp add: slot_inv_len)
  next
    fix w i assume "w < length (workers s')" "holds (workers s' ! w) i"
    then show "i < next_i s' \<and> (i \<in> set (istdout s') \<or> coord s' = DRecv i)"
      using slot_inv_held [OF inv, of w i] push_direct by auto
  next
    fix w1 w2 i
    assume "w1 < length (workers s')" "w2 < length (workers s')"
      "holds (workers s' ! w1) i" "holds (workers s' ! w2) i"
    then show "w1 = w2"
      using slot_inv_distinct [OF inv, of w1 w2 i] push_direct by simp
  next
    fix c' assume "enum s' = Offer c'"
    show "next_i s' \<in> set (istdout s') \<or> coord s' = DRecv (next_i s')"
      using push_direct by simp
  qed
next
  case (hand w c)
  let ?n = "next_i s"
  have new: "?n \<in> set (istdout s) \<or> coord s = DRecv ?n"
    using slot_inv_offer [OF inv hand(1)] .
  have old: "holds (workers s' ! w') i \<Longrightarrow> w' \<noteq> w \<Longrightarrow> holds (workers s ! w') i"
    if "w' < length (workers s)" for w' i
    using that hand by simp
  have self: "holds (workers s' ! w) i \<Longrightarrow> i = ?n" for i
    using hand by simp
  show ?thesis
  proof (rule slot_invI)
    show "length (workers s') = P" using hand inv by (simp add: slot_inv_len)
  next
    fix w' i assume a: "w' < length (workers s')" "holds (workers s' ! w') i"
    then have l: "w' < length (workers s)" using hand by simp
    show "i < next_i s' \<and> (i \<in> set (istdout s') \<or> coord s' = DRecv i)"
    proof (cases "w' = w")
      case True
      with a self have "i = ?n" by simp
      with new hand show ?thesis by simp
    next
      case False
      with old [OF l] a have "holds (workers s ! w') i" by simp
      from slot_inv_held [OF inv l this] hand show ?thesis by simp
    qed
  next
    fix w1 w2 i
    assume a: "w1 < length (workers s')" "w2 < length (workers s')"
      "holds (workers s' ! w1) i" "holds (workers s' ! w2) i"
    then have l: "w1 < length (workers s)" "w2 < length (workers s)" using hand by simp_all
    have fresh: False if "w' < length (workers s)" "w' \<noteq> w" "holds (workers s' ! w') ?n" for w'
    proof -
      from old [OF that(1)] that have "holds (workers s ! w') ?n" by simp
      from slot_inv_held [OF inv that(1) this] show False by simp
    qed
    show "w1 = w2"
    proof (cases "w1 = w")
      case w1: True
      with a self have i: "i = ?n" by simp
      show ?thesis using fresh [OF l(2)] a(4) i w1 by blast
    next
      case w1: False
      show ?thesis
      proof (cases "w2 = w")
        case True
        with a self have i: "i = ?n" by simp
        show ?thesis using fresh [OF l(1)] a(3) i w1 by blast
      next
        case False
        with w1 old l a have "holds (workers s ! w1) i" "holds (workers s ! w2) i" by simp_all
        then show ?thesis using slot_inv_distinct [OF inv l] by blast
      qed
    qed
  next
    fix c' assume "enum s' = Offer c'"
    then show "next_i s' \<in> set (istdout s') \<or> coord s' = DRecv (next_i s')"
      using hand by simp
  qed
next
  case (drain_recv i q)
  show ?thesis
  proof (rule slot_invI)
    show "length (workers s') = P" using drain_recv inv by (simp add: slot_inv_len)
  next
    fix w j assume "w < length (workers s')" "holds (workers s' ! w) j"
    then show "j < next_i s' \<and> (j \<in> set (istdout s') \<or> coord s' = DRecv j)"
      using slot_inv_held [OF inv, of w j] drain_recv by auto
  next
    fix w1 w2 j
    assume "w1 < length (workers s')" "w2 < length (workers s')"
      "holds (workers s' ! w1) j" "holds (workers s' ! w2) j"
    then show "w1 = w2"
      using slot_inv_distinct [OF inv, of w1 w2 j] drain_recv by simp
  next
    fix c' assume "enum s' = Offer c'"
    then show "next_i s' \<in> set (istdout s') \<or> coord s' = DRecv (next_i s')"
      using slot_inv_offer [OF inv, of c'] drain_recv by auto
  qed
next
  case (drain_get w i r)
  have hw: "holds (workers s ! w) i" using drain_get by simp
  have old: "holds (workers s' ! w') j \<Longrightarrow> w' \<noteq> w \<and> holds (workers s ! w') j"
    if "w' < length (workers s)" for w' j
    using that drain_get by (cases "w' = w") simp_all
  show ?thesis
  proof (rule slot_invI)
    show "length (workers s') = P" using drain_get inv by (simp add: slot_inv_len)
  next
    fix w' j assume a: "w' < length (workers s')" "holds (workers s' ! w') j"
    then have l: "w' < length (workers s)" using drain_get by simp
    from old [OF l a(2)] have ne: "w' \<noteq> w" and h: "holds (workers s ! w') j" by simp_all
    have "j \<noteq> i" using slot_inv_distinct [OF inv l drain_get(1) h] hw ne by blast
    with slot_inv_held [OF inv l h] drain_get
    show "j < next_i s' \<and> (j \<in> set (istdout s') \<or> coord s' = DRecv j)" by simp
  next
    fix w1 w2 j
    assume a: "w1 < length (workers s')" "w2 < length (workers s')"
      "holds (workers s' ! w1) j" "holds (workers s' ! w2) j"
    then have l: "w1 < length (workers s)" "w2 < length (workers s)" using drain_get by simp_all
    from old [OF l(1) a(3)] old [OF l(2) a(4)]
    show "w1 = w2" using slot_inv_distinct [OF inv l] by blast
  next
    fix c' assume e: "enum s' = Offer c'"
    then have "enum s = Offer c'" using drain_get by simp
    from slot_inv_offer [OF inv this] slot_inv_held [OF inv drain_get(1) hw] drain_get
    show "next_i s' \<in> set (istdout s') \<or> coord s' = DRecv (next_i s')" by auto
  qed
next
  case (drain_send i r)
  show ?thesis
  proof (rule slot_invI)
    show "length (workers s') = P" using drain_send inv by (simp add: slot_inv_len)
  next
    fix w j assume "w < length (workers s')" "holds (workers s' ! w) j"
    then show "j < next_i s' \<and> (j \<in> set (istdout s') \<or> coord s' = DRecv j)"
      using slot_inv_held [OF inv, of w j] drain_send by auto
  next
    fix w1 w2 j
    assume "w1 < length (workers s')" "w2 < length (workers s')"
      "holds (workers s' ! w1) j" "holds (workers s' ! w2) j"
    then show "w1 = w2"
      using slot_inv_distinct [OF inv, of w1 w2 j] drain_send by simp
  next
    fix c' assume "enum s' = Offer c'"
    then show "next_i s' \<in> set (istdout s') \<or> coord s' = DRecv (next_i s')"
      using slot_inv_offer [OF inv, of c'] drain_send by auto
  qed
next
  case (drain_drop i r)
  show ?thesis
  proof (rule slot_invI)
    show "length (workers s') = P" using drain_drop inv by (simp add: slot_inv_len)
  next
    fix w j assume "w < length (workers s')" "holds (workers s' ! w) j"
    then show "j < next_i s' \<and> (j \<in> set (istdout s') \<or> coord s' = DRecv j)"
      using slot_inv_held [OF inv, of w j] drain_drop by auto
  next
    fix w1 w2 j
    assume "w1 < length (workers s')" "w2 < length (workers s')"
      "holds (workers s' ! w1) j" "holds (workers s' ! w2) j"
    then show "w1 = w2"
      using slot_inv_distinct [OF inv, of w1 w2 j] drain_drop by simp
  next
    fix c' assume "enum s' = Offer c'"
    then show "next_i s' \<in> set (istdout s') \<or> coord s' = DRecv (next_i s')"
      using slot_inv_offer [OF inv, of c'] drain_drop by auto
  qed
next
  case drain_close
  show ?thesis
  proof (rule slot_invI)
    show "length (workers s') = P" using drain_close inv by (simp add: slot_inv_len)
  next
    fix w j assume "w < length (workers s')" "holds (workers s' ! w) j"
    then show "j < next_i s' \<and> (j \<in> set (istdout s') \<or> coord s' = DRecv j)"
      using slot_inv_held [OF inv, of w j] drain_close by auto
  next
    fix w1 w2 j
    assume "w1 < length (workers s')" "w2 < length (workers s')"
      "holds (workers s' ! w1) j" "holds (workers s' ! w2) j"
    then show "w1 = w2"
      using slot_inv_distinct [OF inv, of w1 w2 j] drain_close by simp
  next
    fix c' assume "enum s' = Offer c'"
    then show "next_i s' \<in> set (istdout s') \<or> coord s' = DRecv (next_i s')"
      using drain_close by simp
  qed
qed

lemma slot_inv_run:
  "run_schedule (oRunner_step P W exec) sched s = Some s' \<Longrightarrow> slot_inv P s \<Longrightarrow> slot_inv P s'"
proof (induction sched arbitrary: s)
  case Nil
  then show ?case by simp
next
  case (Cons a sched)
  from Cons.prems(1) obtain s1 where s1: "oRunner_step P W exec a s = Some s1"
    and rest: "run_schedule (oRunner_step P W exec) sched s1 = Some s'"
    by (auto split: option.splits)
  from slot_inv_step [OF s1 Cons.prems(2)] Cons.IH [OF rest] show ?case by blast
qed

lemma unreleased_le:
  assumes "slot_inv P s"
  shows "length (unreleased s) \<le> length (istdout s)" and "length (unreleased s) \<le> P"
proof -
  let ?Q = "\<lambda>w. case w of Publish i r \<Rightarrow> coord s \<noteq> DRecv i | _ \<Rightarrow> False"
  let ?A = "{w. w < length (workers s) \<and> ?Q (workers s ! w)}"
  let ?f = "\<lambda>w. case workers s ! w of Publish i r \<Rightarrow> i | _ \<Rightarrow> 0"
  have len: "length (unreleased s) = card ?A"
    unfolding unreleased_def by (rule length_filter_conv_card)
  have h: "holds (workers s ! w) (?f w) \<and> coord s \<noteq> DRecv (?f w)" if "w \<in> ?A" for w
    using that by (cases "workers s ! w") simp_all
  have inj: "inj_on ?f ?A"
  proof (rule inj_onI)
    fix x y assume x: "x \<in> ?A" and y: "y \<in> ?A" and e: "?f x = ?f y"
    from h [OF x] h [OF y] e have "holds (workers s ! x) (?f x)" "holds (workers s ! y) (?f x)"
      by simp_all
    with slot_inv_distinct [OF assms] x y show "x = y" by blast
  qed
  have sub: "?f ` ?A \<subseteq> set (istdout s)"
  proof
    fix i assume "i \<in> ?f ` ?A"
    then obtain w where w: "w \<in> ?A" "i = ?f w" by blast
    from h [OF w(1)] slot_inv_held [OF assms, of w "?f w"] w show "i \<in> set (istdout s)"
      by blast
  qed
  have "card ?A \<le> card (set (istdout s))"
    using card_inj_on_le [OF inj sub] by simp
  also have "\<dots> \<le> length (istdout s)" by (rule card_length)
  finally show "length (unreleased s) \<le> length (istdout s)" using len by simp
  show "length (unreleased s) \<le> P"
    using slot_inv_len [OF assms] length_filter_le [of ?Q "workers s"]
    by (simp add: unreleased_def)
qed


lemma run_loop_out:
  "run_loop args ps d = Inr d' \<Longrightarrow>
     \<exists>k\<le>length ps. out d' = out d @ concat (map stdout_of (take k ps))
        \<and> (\<not> StopOnError args \<longrightarrow> k = length ps)"
proof (induction ps arbitrary: d)
  case Nil
  then show ?case by simp
next
  case (Cons p ps)
  show ?case
  proof (cases "ExitCode p \<noteq> 0 \<and> StopOnError args")
    case True
    with Cons.prems have "out d' = out d" by (auto simp: Let_def)
    with True show ?thesis by (intro exI [of _ 0]) simp
  next
    case False
    with Cons.prems obtain bs d1 where bs: "Reader p = Some bs"
      and rec: "run_loop args ps d1 = Inr d'" and d1: "out d1 = out d @ bs"
      by (auto simp: Let_def split: option.splits sum.splits if_splits)
    from Cons.IH [OF rec] obtain k where k: "k \<le> length ps"
      "out d' = out d1 @ concat (map stdout_of (take k ps))"
      "\<not> StopOnError args \<longrightarrow> k = length ps" by blast
    moreover have "stdout_of p = bs" using bs by (simp add: stdout_of_def)
    ultimately show ?thesis
      using d1 by (intro exI [of _ "Suc k"]) simp
  qed
qed

lemma pool_init_inv:
  "order_inv (pool_init P cmds)" "source_inv cmds (pool_init P cmds)"
  "result_inv exec cmds (pool_init P cmds)" "capacity_inv P W (pool_init P cmds)"
  by (simp_all add: order_inv_def ordered_upto_def pipeline_def pushed_def enum_pushed_def
        coord_idx_def source_inv_def enum_taken_def enum_ok_def result_inv_def worker_ok_def
        coord_ok_def results_ok_def capacity_inv_def pool_init_def)

lemma oRunner_invs:
  "run_schedule (oRunner_step P W exec) sched s = Some s' \<Longrightarrow>
   order_inv s \<and> source_inv cmds s \<and> result_inv exec cmds s \<and> capacity_inv P W s \<Longrightarrow>
   order_inv s' \<and> source_inv cmds s' \<and> result_inv exec cmds s' \<and> capacity_inv P W s'"
proof (induction sched arbitrary: s)
  case Nil
  then show ?case by simp
next
  case (Cons a sched)
  from Cons.prems(1) obtain s1 where s1: "oRunner_step P W exec a s = Some s1"
    and rest: "run_schedule (oRunner_step P W exec) sched s1 = Some s'"
    by (auto split: option.splits)
  have "order_inv s1" using order_inv_step [OF s1] Cons.prems(2) by blast
  moreover have "source_inv cmds s1" using source_inv_step [OF s1] Cons.prems(2) by blast
  moreover have "result_inv exec cmds s1" using result_inv_step [OF s1] Cons.prems(2) by blast
  moreover have "capacity_inv P W s1" using capacity_inv_step [OF s1] Cons.prems(2) by blast
  ultimately show ?case using Cons.IH [OF rest] by blast
qed

lemma oRunner_reachable_inv:
  assumes "run_schedule (oRunner_step P W exec) sched (pool_init P cmds) = Some s"
  shows "order_inv s" "source_inv cmds s" "result_inv exec cmds s" "capacity_inv P W s"
  using oRunner_invs [OF assms, of cmds] pool_init_inv by blast+

lemma pushed_le: "source_inv cmds s \<Longrightarrow> pushed s \<le> length cmds"
  by (auto simp: source_inv_def pushed_def enum_pushed_def enum_taken_def split: enum_pc.splits)

lemma delivered_prefix:
  assumes "pipeline s = [0..<n]"
  shows "map fst (delivered s) = [0..<length (delivered s)]" and "length (delivered s) \<le> n"
proof -
  have "map fst (delivered s) = take (length (delivered s)) (pipeline s)"
    by (simp add: pipeline_def)
  moreover have "length (delivered s) \<le> length (pipeline s)"
    by (simp add: pipeline_def)
  ultimately show "map fst (delivered s) = [0..<length (delivered s)]"
    and "length (delivered s) \<le> n"
    using assms by (simp_all add: take_upt)
qed

lemma results_by_index:
  assumes "results_ok exec cmds xs" and "map fst xs = [0..<length xs]"
  shows "xs = map (\<lambda>i. (i, exec i (cmds ! i))) [0..<length xs]"
proof (rule nth_equalityI)
  show "length xs = length (map (\<lambda>i. (i, exec i (cmds ! i))) [0..<length xs])" by simp
next
  fix i assume i: "i < length xs"
  then have "fst (xs ! i) = i"
    using assms(2) by (metis add_0 nth_map nth_upt)
  moreover have "snd (xs ! i) = exec (fst (xs ! i)) (cmds ! fst (xs ! i))"
    using assms(1) i by (simp add: results_ok_def)
  ultimately show "xs ! i = map (\<lambda>i. (i, exec i (cmds ! i))) [0..<length xs] ! i"
    using i by (simp add: prod_eq_iff)
qed

lemma finished_pushed:
  assumes "source_inv cmds s" and "finished s"
  shows "pushed s = length cmds" and "pipeline s = map fst (delivered s)"
proof -
  from assms(2) have f: "coord s = DClosed" "chan s = []"
    by (simp_all add: finished_def)
  from assms(1) have t: "todo s = drop (next_i s + enum_taken (enum s)) cmds"
    "next_i s + enum_taken (enum s) \<le> length cmds"
    "enum s = Closed \<longrightarrow> todo s = []"
    "coord s = DClosed \<longrightarrow> enum s = Closed \<and> istdout s = []"
    unfolding source_inv_def by blast+
  from f t have c: "enum s = Closed" "istdout s = []" "todo s = []" by simp_all
  have z: "enum_taken (enum s) = 0" "enum_pushed (enum s) = 0"
    using c by (simp_all add: enum_taken_def enum_pushed_def)
  from t(1,2) c z have "length cmds \<le> next_i s" "next_i s \<le> length cmds" by simp_all
  then show "pushed s = length cmds"
    using z by (simp add: pushed_def)
  show "pipeline s = map fst (delivered s)"
    using c f by (simp add: pipeline_def coord_idx_def)
qed

text \<open>
  C1. In ordered mode, after any schedule of any number of workers: the results the reader
  of the returned channel has received are in strictly increasing emission order, each is
  the result of the command of its index, and without cancellation they are exactly the
  results of the first commands, all of them once the channel is closed and empty. What
  \<open>run\<close> writes to stdout from them is the concatenation, in that order, of the outputs
  of an initial segment; without cancellation and \<open>--stop-on-error\<close>, the final output
  is the concatenation of all commands' outputs in emission order, whatever the number of
  workers and the order of completion.
\<close>

theorem oRunner_order:
  assumes "run_schedule (oRunner_step P W exec) sched (pool_init P cmds) = Some s"
  shows "sorted_wrt (<) (map fst (delivered s))
    \<and> (\<forall>x \<in> set (delivered s). fst x < length cmds \<and> snd x = exec (fst x) (cmds ! fst x))
    \<and> (\<not> cancelled s \<longrightarrow> delivered s = take (length (delivered s)) (expected exec cmds))
    \<and> (\<not> cancelled s \<and> finished s \<longrightarrow> delivered s = expected exec cmds)
    \<and> (\<forall>args fs d. run args (map snd (delivered s)) fs = Inr d \<longrightarrow>
          (\<exists>k\<le>length (delivered s).
              out d = concat (map (\<lambda>x. stdout_of (snd x)) (take k (delivered s)))
              \<and> (\<not> cancelled s \<and> finished s \<and> \<not> StopOnError args \<longrightarrow>
                   out d = concat (map (\<lambda>i. stdout_of (exec i (cmds ! i))) [0..<length cmds]))))"
proof -
  note inv = oRunner_reachable_inv [OF assms]
  have ord: "ordered_upto (cancelled s) (pushed s) (pipeline s)"
    using inv(1) by (simp add: order_inv_def)
  have sorted: "sorted_wrt (<) (map fst (delivered s))"
    using ord by (simp add: ordered_upto_def pipeline_def sorted_wrt_append)
  have res: "results_ok exec cmds (delivered s)"
    using inv(3) by (simp add: result_inv_def)
  have "fst x \<in> set (pipeline s)" if "x \<in> set (delivered s)" for x
    using that by (simp add: pipeline_def)
  moreover have "\<forall>i \<in> set (pipeline s). i < pushed s"
    using ord by (simp add: ordered_upto_def)
  ultimately have bound: "\<forall>x \<in> set (delivered s). fst x < length cmds"
    using pushed_le [OF inv(2)] by fastforce
  have prefix: "delivered s = take (length (delivered s)) (expected exec cmds)"
    if nc: "\<not> cancelled s"
  proof -
    from ord nc have p: "pipeline s = [0..<pushed s]" by (simp add: ordered_upto_def)
    from delivered_prefix [OF p] pushed_le [OF inv(2)]
    have idx: "map fst (delivered s) = [0..<length (delivered s)]"
      and len: "length (delivered s) \<le> length cmds" by simp_all
    from results_by_index [OF res idx] len show ?thesis
      by (simp add: expected_def take_map take_upt)
  qed
  have full: "delivered s = expected exec cmds" if nc: "\<not> cancelled s" and fin: "finished s"
  proof -
    from ord nc have p: "pipeline s = [0..<pushed s]" by (simp add: ordered_upto_def)
    with finished_pushed [OF inv(2) fin] have "map fst (delivered s) = [0..<length cmds]"
      by simp
    then have "length (delivered s) = length cmds"
      by (metis diff_zero length_map length_upt)
    with prefix [OF nc] show ?thesis by (simp add: expected_def)
  qed
  have sink: "\<exists>k\<le>length (delivered s).
              out d = concat (map (\<lambda>x. stdout_of (snd x)) (take k (delivered s)))
              \<and> (\<not> cancelled s \<and> finished s \<and> \<not> StopOnError args \<longrightarrow>
                   out d = concat (map (\<lambda>i. stdout_of (exec i (cmds ! i))) [0..<length cmds]))"
    if r: "run args (map snd (delivered s)) fs = Inr d" for args fs d
  proof -
    from run_loop_out [OF r [unfolded run_def]] obtain k where
      k: "k \<le> length (delivered s)"
        "out d = concat (map stdout_of (take k (map snd (delivered s))))"
        "\<not> StopOnError args \<longrightarrow> k = length (delivered s)"
      by auto
    have o: "out d = concat (map (\<lambda>x. stdout_of (snd x)) (take k (delivered s)))"
      using k(2) by (simp add: take_map comp_def)
    have "out d = concat (map (\<lambda>i. stdout_of (exec i (cmds ! i))) [0..<length cmds])"
      if "\<not> cancelled s" "finished s" "\<not> StopOnError args"
    proof -
      from that k(3) have "k = length (delivered s)" by simp
      with o full [OF that(1,2)] show ?thesis
        by (simp add: expected_def comp_def)
    qed
    with k(1) o show ?thesis by blast
  qed
  from sorted res bound prefix full sink show ?thesis
    by (simp add: results_ok_def)
qed

lemma sched_ab_run:
  "run_schedule (oRunner_step 2 4 echo) sched_ab (pool_init 2 [''a'', ''b'']) = Some final_ab"
  by (simp add: sched_ab_def final_ab_def pool_init_def oRunner_step_def enum_recv_def
        enum_push_def enum_close_def hand_def finish_def leave_def drain_recv_def drain_get_def
        drain_send_def drain_close_def consume_def numeral_2_eq_2)

theorem oRunner_order_witness:
  "run_schedule (oRunner_step 2 4 echo) sched_ab (pool_init 2 [''a'', ''b'']) = Some final_ab
   \<and> events final_ab = [Started 0 0, Started 1 1]
   \<and> delivered final_ab = expected echo [''a'', ''b'']
   \<and> run (default_params ''echo {}'') (map snd (delivered final_ab)) fs_empty
       = Inr \<lparr>main_ExitCode = 0, fails = 0, out = ''ab'', dfs = fs_empty\<rparr>"
proof -
  have fin: "\<not> cancelled final_ab \<and> finished final_ab"
    by (simp add: final_ab_def finished_def)
  have "delivered final_ab = expected echo [''a'', ''b'']"
    using oRunner_order [OF sched_ab_run] fin by blast
  moreover have "run (default_params ''echo {}'') (map snd (delivered final_ab)) fs_empty
       = Inr \<lparr>main_ExitCode = 0, fails = 0, out = ''ab'', dfs = fs_empty\<rparr>"
    by (simp add: final_ab_def run_def echo_def newCommand_def ExitCode_def Cleanup_def
          default_params_def Let_def)
  ultimately show ?thesis
    using sched_ab_run by (simp add: final_ab_def)
qed

subsection \<open>The ordered runner can finish\<close>

text \<open>
  With at least one worker, whatever the capacity of the queue, the sequential schedule
  ends with the channel closed and empty and every result delivered.
\<close>

lemma run_schedule_append:
  "run_schedule step (as @ bs) s =
     (case run_schedule step as s of None \<Rightarrow> None | Some s' \<Rightarrow> run_schedule step bs s')"
  by (induction as arbitrary: s) (auto split: option.splits)

lemma seq_round_step:
  assumes "1 \<le> P" and "k < length cmds"
  shows "run_schedule (oRunner_step P W exec) (seq_round (W * P)) (quiescent P exec cmds k)
     = Some (quiescent P exec cmds (Suc k))"
proof -
  have d: "drop k cmds = cmds ! k # drop (Suc k) cmds"
    using assms(2) by (simp add: Cons_nth_drop_Suc)
  have t: "take (Suc k) (expected exec cmds) = take k (expected exec cmds) @ [(k, exec k (cmds ! k))]"
    using assms(2) by (simp add: expected_def take_Suc_conv_app_nth)
  have w: "0 < P" using assms(1) by simp
  have u: "(replicate P Idle)[0 := Idle] = replicate P Idle"
    by (rule nth_equalityI) (auto simp: nth_list_update)
  show ?thesis
    using w u by (simp add: seq_round_def quiescent_def pool_init_def d t oRunner_step_def
        enum_recv_def enum_push_def hand_def finish_def drain_recv_def drain_get_def
        drain_send_def consume_def)
qed

lemma seq_rounds:
  "1 \<le> P \<Longrightarrow> k \<le> length cmds \<Longrightarrow>
     run_schedule (oRunner_step P W exec) (concat (replicate k (seq_round (W * P))))
        (quiescent P exec cmds 0) = Some (quiescent P exec cmds k)"
proof (induction k)
  case 0
  then show ?case by simp
next
  case (Suc k)
  then have "run_schedule (oRunner_step P W exec) (concat (replicate k (seq_round (W * P))))
        (quiescent P exec cmds 0) = Some (quiescent P exec cmds k)" by simp
  moreover have "concat (replicate (Suc k) (seq_round (W * P)))
      = concat (replicate k (seq_round (W * P))) @ seq_round (W * P)"
    by (metis concat.simps(2) concat_append replicate_Suc replicate_append_same append_Nil2 concat.simps(1))
  ultimately show ?case
    using seq_round_step [of P k cmds W exec] Suc.prems
    by (simp add: run_schedule_append del: replicate_Suc)
qed

lemma oRunner_completes:
  assumes "1 \<le> P"
  shows "\<exists>s. run_schedule (oRunner_step P W exec) (seq_schedule (W * P) (length cmds))
            (pool_init P cmds) = Some s
          \<and> finished s \<and> \<not> cancelled s \<and> delivered s = expected exec cmds"
proof -
  have q0: "quiescent P exec cmds 0 = pool_init P cmds"
    by (simp add: quiescent_def pool_init_def)
  have "run_schedule (oRunner_step P W exec) [EnumClose, DrainClose]
          (quiescent P exec cmds (length cmds))
        = Some ((quiescent P exec cmds (length cmds))
             \<lparr>enum := Closed, coord := DClosed, chan_closed := True\<rparr>)"
    by (simp add: quiescent_def pool_init_def oRunner_step_def enum_close_def drain_close_def)
  with seq_rounds [OF assms, of "length cmds" cmds W exec] show ?thesis
    by (simp add: seq_schedule_def run_schedule_append q0 finished_def quiescent_def
          pool_init_def expected_def)
qed


subsection \<open>Channel capacities\<close>

lemma Runner_step_chan:
  "Runner_step P exec a s = Some s' \<Longrightarrow> length (chan s) \<le> P \<Longrightarrow> length (chan s') \<le> P"
  by (cases a)
     (auto simp: Runner_step_def enum_recv_def enum_close_def hand_def finish_def send_def
        observe_cancel_def leave_def close_out_def consume_def cancel_def
        split: if_splits enum_pc.splits list.splits worker.splits)

lemma Runner_chan:
  "run_schedule (Runner_step P exec) sched s = Some s' \<Longrightarrow> length (chan s) \<le> P \<Longrightarrow>
     length (chan s') \<le> P"
  by (induction sched arbitrary: s) (auto split: option.splits dest: Runner_step_chan)

lemma oRunner_slot_inv:
  "run_schedule (oRunner_step P W exec) sched (pool_init P cmds) = Some s \<Longrightarrow> slot_inv P s"
  using slot_inv_run slot_inv_init by blast

lemma replicate_Idle_update: "(replicate P Idle)[0 := Idle] = replicate P Idle"
  by (rule nth_equalityI) (auto simp: nth_list_update)

lemma length_expected: "length (expected exec cmds) = length cmds"
  by (simp add: expected_def)

lemma fill_round_step:
  assumes "k < P" and "k < length cmds"
  shows "run_schedule (Runner_step P exec) fill_round (filled P exec cmds k)
     = Some (filled P exec cmds (Suc k))"
proof -
  have d: "drop k cmds = cmds ! k # drop (Suc k) cmds"
    using assms(2) by (simp add: Cons_nth_drop_Suc)
  have t: "take (Suc k) (expected exec cmds) = take k (expected exec cmds) @ [(k, exec k (cmds ! k))]"
    using assms(2) by (simp add: expected_def take_Suc_conv_app_nth)
  have w: "0 < P" using assms(1) by simp
  have l: "min (length cmds) k < P" using assms(1) by simp
  show ?thesis
    using w l replicate_Idle_update
    by (simp add: fill_round_def filled_def pool_init_def d t Runner_step_def
        enum_recv_def hand_def finish_def send_def length_expected)
qed

lemma fill_rounds:
  "k \<le> P \<Longrightarrow> k \<le> length cmds \<Longrightarrow>
     run_schedule (Runner_step P exec) (concat (replicate k fill_round))
        (filled P exec cmds 0) = Some (filled P exec cmds k)"
proof (induction k)
  case 0
  then show ?case by simp
next
  case (Suc k)
  then have "run_schedule (Runner_step P exec) (concat (replicate k fill_round))
        (filled P exec cmds 0) = Some (filled P exec cmds k)" by simp
  moreover have "concat (replicate (Suc k) fill_round) = concat (replicate k fill_round) @ fill_round"
    by (induction k) simp_all
  ultimately show ?case
    using fill_round_step [of k P cmds exec] Suc.prems
    by (simp add: run_schedule_append del: replicate_Suc)
qed

lemma Runner_fills:
  assumes "1 \<le> P" and "P < length cmds"
  shows "\<exists>s. run_schedule (Runner_step P exec) (fill_schedule P) (pool_init P cmds) = Some s
          \<and> length (chan s) = P \<and> workers s ! 0 = Publish P (exec P (cmds ! P))
          \<and> Runner_step P exec (Send 0) s = None"
proof -
  have q0: "filled P exec cmds 0 = pool_init P cmds"
    by (simp add: filled_def pool_init_def)
  have d: "drop P cmds = cmds ! P # drop (Suc P) cmds"
    using assms(2) by (simp add: Cons_nth_drop_Suc)
  have w: "0 < P" using assms(1) by simp
  let ?s = "(filled P exec cmds P)
       \<lparr>todo := drop (Suc P) cmds, next_i := Suc P, enum := Recv,
        workers := (replicate P Idle)[0 := Publish P (exec P (cmds ! P))],
        events := map (Started 0) [0..<P] @ [Started 0 P]\<rparr>"
  have "run_schedule (Runner_step P exec) [EnumRecv, Hand 0, Finish 0] (filled P exec cmds P)
      = Some ?s"
    using w by (simp add: filled_def pool_init_def d Runner_step_def enum_recv_def hand_def
        finish_def)
  moreover have "length (chan ?s) = P"
    using assms(2) by (simp add: filled_def length_expected)
  moreover have "workers ?s ! 0 = Publish P (exec P (cmds ! P))"
    using w by simp
  moreover have "Runner_step P exec (Send 0) ?s = None"
    using w assms(2) by (simp add: Runner_step_def send_def filled_def pool_init_def length_expected)
  ultimately show ?thesis
    using fill_rounds [of P P cmds exec] assms(2)
    by (simp add: fill_schedule_def run_schedule_append q0)
qed

lemma send_enabled:
  assumes "w < length (workers s)" and "workers s ! w = Publish i r"
    and "\<not> chan_closed s" and "\<not> panicked s"
  shows "(Runner_step P exec (Send w) s \<noteq> None) = (length (chan s) < P)"
  using assms by (simp add: Runner_step_def send_def)

lemma push_enabled:
  assumes "enum s = PushCh c" and "\<not> panicked s" and "coord s \<noteq> DRange \<or> istdout s \<noteq> []"
  shows "(oRunner_step P W exec EnumPush s \<noteq> None) = (length (istdout s) < W * P)"
  using assms by (auto simp: oRunner_step_def enum_push_def)


text \<open>
  C8. In ordered mode the queue of per-command channels never holds more than
  \<open>WaitingMultiplier * P\<close> slots (\<open>4 * P\<close> by default), and a push into its buffer goes
  through exactly when it holds fewer; the completed results that wait for an earlier
  command are never more than the slots in the queue, so never more than
  \<open>WaitingMultiplier * P\<close>, nor more than the \<open>P\<close> workers. In unordered mode the result
  channel has capacity exactly \<open>P\<close>: it never holds more than \<open>P\<close> results, a send on
  the open channel goes through exactly when it holds fewer than \<open>P\<close>, and with \<open>P\<close>
  workers and more than \<open>P\<close> commands it does fill up to \<open>P\<close> and the next send blocks.
\<close>

theorem queue_capacities:
  "(run_schedule (oRunner_step P W exec) sched (pool_init P cmds) = Some s \<longrightarrow>
      length (istdout s) \<le> W * P
      \<and> length (unreleased s) \<le> length (istdout s)
      \<and> length (unreleased s) \<le> W * P
      \<and> length (unreleased s) \<le> P
      \<and> length (chan s) \<le> P
      \<and> (\<forall>c. enum s = PushCh c \<and> \<not> panicked s \<and> (coord s \<noteq> DRange \<or> istdout s \<noteq> []) \<longrightarrow>
            (oRunner_step P W exec EnumPush s \<noteq> None) = (length (istdout s) < W * P)))
   \<and> (run_schedule (oRunner_step P WaitingMultiplier exec) sched (pool_init P cmds) = Some s \<longrightarrow>
      length (istdout s) \<le> 4 * P \<and> length (unreleased s) \<le> 4 * P)
   \<and> (run_schedule (Runner_step P exec) sched (pool_init P cmds) = Some s \<longrightarrow>
      length (chan s) \<le> P
      \<and> (\<forall>w i r. w < length (workers s) \<and> workers s ! w = Publish i r
                \<and> \<not> chan_closed s \<and> \<not> panicked s \<longrightarrow>
            (Runner_step P exec (Send w) s \<noteq> None) = (length (chan s) < P)))
   \<and> (1 \<le> P \<and> P < length cmds \<longrightarrow>
        (\<exists>s'. run_schedule (Runner_step P exec) (fill_schedule P) (pool_init P cmds) = Some s'
           \<and> length (chan s') = P \<and> workers s' ! 0 = Publish P (exec P (cmds ! P))
           \<and> Runner_step P exec (Send 0) s' = None))"
proof (intro conjI impI allI)
  assume r: "run_schedule (oRunner_step P W exec) sched (pool_init P cmds) = Some s"
  from oRunner_reachable_inv(4) [OF r] show cap: "length (istdout s) \<le> W * P"
    and "length (chan s) \<le> P"
    by (simp_all add: capacity_inv_def)
  from unreleased_le [OF oRunner_slot_inv [OF r]]
  show u: "length (unreleased s) \<le> length (istdout s)" and "length (unreleased s) \<le> P"
    by simp_all
  from u cap show "length (unreleased s) \<le> W * P" by simp
next
  fix c
  assume "enum s = PushCh c \<and> \<not> panicked s \<and> (coord s \<noteq> DRange \<or> istdout s \<noteq> [])"
  then show "(oRunner_step P W exec EnumPush s \<noteq> None) = (length (istdout s) < W * P)"
    using push_enabled by blast
next
  assume r: "run_schedule (oRunner_step P WaitingMultiplier exec) sched (pool_init P cmds) = Some s"
  from oRunner_reachable_inv(4) [OF r] show cap: "length (istdout s) \<le> 4 * P"
    by (simp add: capacity_inv_def WaitingMultiplier_def)
  from unreleased_le(1) [OF oRunner_slot_inv [OF r]] cap
  show "length (unreleased s) \<le> 4 * P" by simp
next
  assume r: "run_schedule (Runner_step P exec) sched (pool_init P cmds) = Some s"
  then show "length (chan s) \<le> P"
    by (rule Runner_chan) (simp add: pool_init_def)
next
  fix w i r
  assume "w < length (workers s) \<and> workers s ! w = Publish i r
                \<and> \<not> chan_closed s \<and> \<not> panicked s"
  then show "(Runner_step P exec (Send w) s \<noteq> None) = (length (chan s) < P)"
    using send_enabled by blast
next
  assume "1 \<le> P \<and> P < length cmds"
  then show "\<exists>s'. run_schedule (Runner_step P exec) (fill_schedule P) (pool_init P cmds) = Some s'
           \<and> length (chan s') = P \<and> workers s' ! 0 = Publish P (exec P (cmds ! P))
           \<and> Runner_step P exec (Send 0) s' = None"
    using Runner_fills by blast
qed

theorem queue_capacities_witness:
  "(\<exists>s. run_schedule (oRunner_step 2 WaitingMultiplier echo) sched_wait
           (pool_init 2 [''a'', ''b'', ''c'']) = Some s
        \<and> istdout s = [0, 1] \<and> unreleased s = [Publish 1 (echo 1 ''b'')]
        \<and> length (unreleased s) \<le> length (istdout s) \<and> length (istdout s) \<le> 4 * 2)
   \<and> (\<exists>s. run_schedule (Runner_step 2 echo) (fill_schedule 2) (pool_init 2 [''a'', ''b'', ''c''])
           = Some s
        \<and> length (chan s) = 2 \<and> workers s ! 0 = Publish 2 (echo 2 ''c'')
        \<and> Runner_step 2 echo (Send 0) s = None)"
proof -
  obtain s where s: "run_schedule (oRunner_step 2 WaitingMultiplier echo) sched_wait
           (pool_init 2 [''a'', ''b'', ''c'']) = Some s" "istdout s = [0, 1]"
      "unreleased s = [Publish 1 (echo 1 ''b'')]"
    by (simp add: sched_wait_def pool_init_def oRunner_step_def enum_recv_def
        enum_push_def hand_def finish_def unreleased_def WaitingMultiplier_def numeral_2_eq_2)
  from queue_capacities [of 2 4 echo sched_wait "[''a'', ''b'', ''c'']" s] s(1)
  have "length (unreleased s) \<le> length (istdout s)" "length (istdout s) \<le> 4 * 2"
    by (simp_all add: WaitingMultiplier_def)
  moreover from queue_capacities [of 2 4 echo sched_wait "[''a'', ''b'', ''c'']" s]
  have "\<exists>s'. run_schedule (Runner_step 2 echo) (fill_schedule 2) (pool_init 2 [''a'', ''b'', ''c''])
           = Some s'
        \<and> length (chan s') = 2 \<and> workers s' ! 0 = Publish 2 (echo 2 ''c'')
        \<and> Runner_step 2 echo (Send 0) s' = None"
    by simp
  ultimately show ?thesis using s by blast
qed

end
